theory Spec2Isabelle
  imports Complex_Main "HOL-Library.Word"
begin

section \<open>Machine types and failures\<close>

text \<open>
  The program is \<^verbatim>\<open>src/main.cpp\<close>. It is modelled for an LP64 platform:
  \<^verbatim>\<open>size_t\<close> is an unsigned 64-bit word, \<^verbatim>\<open>int\<close> a 32-bit word read in two's
  complement (\<open>sint\<close>, \<open>\<le>s\<close>), \<^verbatim>\<open>unsigned int\<close> a 32-bit word read unsigned.
  A \<^verbatim>\<open>std::vector<T>\<close> is a list. The element type \<^verbatim>\<open>T\<close> of the template
  \<^verbatim>\<open>parallelInclusiveScan\<close> stays a type variable: all the code asks of it is a
  value-initialised element \<^verbatim>\<open>T()\<close> (here \<open>0\<close>) and \<^verbatim>\<open>+\<close>, so the results hold for the
  mathematical integers as well as for 32-bit words that wrap around.

  What is undefined behaviour in C++ is a value of \<open>error\<close>: a division by zero,
  an access outside a vector, a signed overflow in \<^verbatim>\<open>int\<close> arithmetic. Creating a
  vector always succeeds: running out of memory is outside the model.
\<close>

type_synonym size_t = "64 word"
type_synonym cint = "32 word"
type_synonym cuint = "32 word"

datatype error = DivisionByZero | OutOfRange | SignedOverflow

definition bind :: "error + 'a \<Rightarrow> ('a \<Rightarrow> error + 'b) \<Rightarrow> error + 'b" where
  "bind m f = (case m of Inl e \<Rightarrow> Inl e | Inr x \<Rightarrow> f x)"

text \<open>
  The largest size that a \<^verbatim>\<open>std::vector\<close> passed to the program can have:
  \<^verbatim>\<open>max_size()\<close> is at most \<^verbatim>\<open>PTRDIFF_MAX\<close> \<open>= 2\<^sup>6\<^sup>3 - 1\<close> for every element type.
\<close>

definition vector_max_size :: size_t where
  "vector_max_size = 2 ^ 63 - 1"

text \<open>\<^verbatim>\<open>std::vector<T> v(count)\<close>: \<open>count\<close> value-initialised elements.\<close>

definition vec_new :: "size_t \<Rightarrow> 'a::zero list" where
  "vec_new count = replicate (unat count) 0"

text \<open>Unchecked element access \<^verbatim>\<open>v[i]\<close>, read and write; outside the vector it is undefined.\<close>

definition vec_get :: "'a list \<Rightarrow> nat \<Rightarrow> error + 'a" where
  "vec_get v i = (if i < length v then Inr (v ! i) else Inl OutOfRange)"

definition vec_set :: "'a list \<Rightarrow> nat \<Rightarrow> 'a \<Rightarrow> error + 'a list" where
  "vec_set v i x = (if i < length v then Inr (v[i := x]) else Inl OutOfRange)"

section \<open>The sequential baseline: \<^verbatim>\<open>std::inclusive_scan\<close>\<close>

text \<open>
  \<^verbatim>\<open>std::inclusive_scan(first, last, d_first)\<close> of the standard library: the first output
  is the first input, every further output is the running sum plus the next input.
\<close>

fun scan_acc :: "'a::plus \<Rightarrow> 'a list \<Rightarrow> 'a list" where
  "scan_acc acc [] = []"
| "scan_acc acc (x # xs) = (acc + x) # scan_acc (acc + x) xs"

fun inclusive_scan :: "'a::plus list \<Rightarrow> 'a list" where
  "inclusive_scan [] = []"
| "inclusive_scan (x # xs) = x # scan_acc x xs"

text \<open>
  The call on iterators: it reads \<open>src[first..last)\<close> and writes the scan to
  \<open>dst[d_first..d_first + (last - first))\<close>; the other elements of \<open>dst\<close> are kept.
  Both ranges must lie inside their vectors.
\<close>

definition inclusive_scan_into ::
  "'a::plus list \<Rightarrow> nat \<Rightarrow> nat \<Rightarrow> 'a list \<Rightarrow> nat \<Rightarrow> error + 'a list" where
  "inclusive_scan_into src first last' dst d_first =
     (if first \<le> last' \<and> last' \<le> length src \<and> d_first + (last' - first) \<le> length dst
      then Inr (take d_first dst
                @ inclusive_scan (take (last' - first) (drop first src))
                @ drop (d_first + (last' - first)) dst)
      else Inl OutOfRange)"

section \<open>\<^verbatim>\<open>parallelInclusiveScan\<close>\<close>

text \<open>
  Line 46: \<^verbatim>\<open>size_t chunkSize = (n + numThreads - 1) / numThreads\<close>. The \<^verbatim>\<open>int\<close> is
  converted to \<^verbatim>\<open>size_t\<close> (sign extension), the arithmetic is unsigned 64-bit, and a
  zero divisor is undefined.
\<close>

definition chunkSize_of :: "size_t \<Rightarrow> cint \<Rightarrow> error + size_t" where
  "chunkSize_of n numThreads =
     (let d = (scast numThreads :: size_t)
      in if d = 0 then Inl DivisionByZero else Inr ((n + d - 1) div d))"

text \<open>
  Lines 52-53 and 75-76: the bounds of chunk \<open>t\<close>, in \<^verbatim>\<open>size_t\<close> arithmetic.
\<close>

definition chunk_bounds :: "size_t \<Rightarrow> size_t \<Rightarrow> nat \<Rightarrow> size_t \<times> size_t" where
  "chunk_bounds chunkSize n t =
     (let start = of_nat t * chunkSize;
          end' = min (start + chunkSize) n
      in (start, end'))"

text \<open>
  Lines 51-61, the body of thread \<open>t\<close> of the first phase, on the shared vectors
  \<open>result\<close> and \<open>lastValues\<close>.
\<close>

definition scan_chunk ::
  "'a::plus list \<Rightarrow> size_t \<Rightarrow> size_t \<Rightarrow> nat \<Rightarrow> 'a list \<times> 'a list
     \<Rightarrow> error + 'a list \<times> 'a list" where
  "scan_chunk input chunkSize n t st =
     (case st of (result, lastValues) \<Rightarrow>
      case chunk_bounds chunkSize n t of (start, end') \<Rightarrow>
        if start \<ge> n then Inr (result, lastValues)
        else
          bind (inclusive_scan_into input (unat start) (unat end') result (unat start))
            (\<lambda>result.
          bind (vec_get result (unat (end' - 1)))
            (\<lambda>v.
          bind (vec_set lastValues t v)
            (\<lambda>lastValues. Inr (result, lastValues)))))"

text \<open>Lines 81-83: \<^verbatim>\<open>for (size_t i = start; i < end; ++i) result[i] += offset\<close>.\<close>

function add_loop :: "'a::plus \<Rightarrow> nat \<Rightarrow> nat \<Rightarrow> 'a list \<Rightarrow> error + 'a list" where
  "add_loop offset i end' result =
     (if i < end' then
        bind (vec_get result i) (\<lambda>v.
        bind (vec_set result i (v + offset)) (\<lambda>result.
        add_loop offset (i + 1) end' result))
      else Inr result)"
  by pat_completeness auto
termination
  by (relation "measure (\<lambda>(offset, i, end', result). end' - i)") auto

text \<open>
  Lines 74-84, the body of thread \<open>t\<close> of the third phase. The loop that spawns these
  threads starts at \<open>t = 1\<close>; \<^verbatim>\<open>prefixSums[t - 1]\<close> at \<open>t = 0\<close> would be outside the
  vector.
\<close>

definition add_offset ::
  "size_t \<Rightarrow> size_t \<Rightarrow> 'a::plus list \<Rightarrow> nat \<Rightarrow> 'a list \<Rightarrow> error + 'a list" where
  "add_offset chunkSize n prefixSums t result =
     (case chunk_bounds chunkSize n t of (start, end') \<Rightarrow>
        if start \<ge> n then Inr result
        else if t = 0 then Inl OutOfRange
        else
          bind (vec_get prefixSums (t - 1))
            (\<lambda>offset. add_loop offset (unat start) (unat end') result))"

text \<open>
  The threads of one phase write disjoint parts of the shared vectors and are joined
  before the next phase starts. They are run here one after the other, each body to its
  end, in the order of a list of thread indices.
\<close>

fun run_threads :: "(nat \<Rightarrow> 's \<Rightarrow> error + 's) \<Rightarrow> nat list \<Rightarrow> 's \<Rightarrow> error + 's" where
  "run_threads body [] st = Inr st"
| "run_threads body (t # ts) st = bind (body t st) (run_threads body ts)"

text \<open>
  Lines 48-67, the first phase: \<open>lastValues\<close> is created with \<open>numThreads\<close> zeros, the
  threads run in the order \<open>order1\<close>, and are joined.
\<close>

definition phase1 ::
  "nat list \<Rightarrow> 'a::{plus,zero} list \<Rightarrow> size_t \<Rightarrow> size_t \<Rightarrow> cint \<Rightarrow> 'a list
     \<Rightarrow> error + 'a list \<times> 'a list" where
  "phase1 order1 input chunkSize n numThreads result =
     (let lastValues = vec_new (scast numThreads)
      in run_threads (scan_chunk input chunkSize n) order1 (result, lastValues))"

text \<open>
  Lines 69-71, the second phase: the scan of \<open>lastValues[0..numThreads)\<close> into the new
  vector \<open>prefixSums\<close>.
\<close>

definition phase2 :: "'a::{plus,zero} list \<Rightarrow> cint \<Rightarrow> error + 'a list" where
  "phase2 lastValues numThreads =
     (let prefixSums = vec_new (scast numThreads)
      in if sint numThreads < 0 then Inl OutOfRange
         else inclusive_scan_into lastValues 0 (nat (sint numThreads)) prefixSums 0)"

text \<open>Lines 73-89, the third phase: the threads run in the order \<open>order3\<close> and are joined.\<close>

definition phase3 ::
  "nat list \<Rightarrow> size_t \<Rightarrow> size_t \<Rightarrow> 'a::plus list \<Rightarrow> 'a list \<Rightarrow> error + 'a list" where
  "phase3 order3 chunkSize n prefixSums result =
     run_threads (add_offset chunkSize n prefixSums) order3 result"

text \<open>
  Lines 46-91, the code after the guard. The second component of the result counts the
  threads that were created (\<^verbatim>\<open>threads.emplace_back\<close>).
\<close>

definition parallel_phases ::
  "nat list \<Rightarrow> nat list \<Rightarrow> 'a::{plus,zero} list \<Rightarrow> size_t \<Rightarrow> cint \<Rightarrow> 'a list
     \<Rightarrow> error + 'a list \<times> nat" where
  "parallel_phases order1 order3 input n numThreads result =
     bind (chunkSize_of n numThreads)
       (\<lambda>chunkSize.
     bind (phase1 order1 input chunkSize n numThreads result)
       (\<lambda>(result, lastValues).
     bind (phase2 lastValues numThreads)
       (\<lambda>prefixSums.
     bind (phase3 order3 chunkSize n prefixSums result)
       (\<lambda>result. Inr (result, length order1 + length order3)))))"

text \<open>
  Lines 37-92 with the threads of each phase run in a given order: the guard, the
  sequential fallback, and the parallel phases.
\<close>

definition parallelInclusiveScan_in ::
  "nat list \<Rightarrow> nat list \<Rightarrow> 'a::{plus,zero} list \<Rightarrow> cint \<Rightarrow> error + 'a list \<times> nat" where
  "parallelInclusiveScan_in order1 order3 input numThreads =
     (let n = (of_nat (length input) :: size_t);
          result = vec_new n
      in
        if numThreads \<le>s 1 \<or> n < 1000 then
          bind (inclusive_scan_into input 0 (length input) result 0)
            (\<lambda>result. Inr (result, 0))
        else parallel_phases order1 order3 input n numThreads result)"

text \<open>
  The loops of lines 50 and 73 create the threads \<open>t = 0, \<dots>, numThreads - 1\<close> and
  \<open>t = 1, \<dots>, numThreads - 1\<close>.
\<close>

definition phase1_threads :: "cint \<Rightarrow> nat list" where
  "phase1_threads numThreads = [0 ..< nat (sint numThreads)]"

definition phase3_threads :: "cint \<Rightarrow> nat list" where
  "phase3_threads numThreads = [1 ..< nat (sint numThreads)]"

text \<open>
  The run in which every thread finishes before the next one starts, with the number of
  threads created, and the function itself, which returns the vector.
\<close>

definition parallelInclusiveScan_run ::
  "'a::{plus,zero} list \<Rightarrow> cint \<Rightarrow> error + 'a list \<times> nat" where
  "parallelInclusiveScan_run input numThreads =
     parallelInclusiveScan_in (phase1_threads numThreads) (phase3_threads numThreads)
       input numThreads"

definition parallelInclusiveScan :: "'a::{plus,zero} list \<Rightarrow> cint \<Rightarrow> error + 'a list" where
  "parallelInclusiveScan input numThreads =
     bind (parallelInclusiveScan_run input numThreads) (\<lambda>(result, spawned). Inr result)"

section \<open>\<^verbatim>\<open>generateRandomData\<close>\<close>

text \<open>
  Lines 16-26. The random engine and the distribution belong to the standard library
  and are parameters: \<open>gen\<close> is the state of the engine after seeding, and
  \<open>dis a b gen\<close> is one call \<^verbatim>\<open>dis(gen)\<close> of a \<^verbatim>\<open>uniform_int_distribution<int>(a, b)\<close>,
  which returns the number drawn and the next state of the engine. The loop counter is
  a \<^verbatim>\<open>size_t\<close>.
\<close>

function fill_random ::
  "(cint \<Rightarrow> cint \<Rightarrow> 'g \<Rightarrow> cint \<times> 'g) \<Rightarrow> size_t \<Rightarrow> size_t \<Rightarrow> 'g \<Rightarrow> cint list
     \<Rightarrow> error + cint list" where
  "fill_random dis i size' gen data =
     (if i < size' then
        (case dis 1 100 gen of (v, gen) \<Rightarrow>
           bind (vec_set data (unat i) v) (\<lambda>data. fill_random dis (i + 1) size' gen data))
      else Inr data)"
  by pat_completeness auto
termination
proof (relation "measure (\<lambda>(dis, i, size', gen, data). unat size' - unat i)")
  show "wf (measure (\<lambda>(dis, i, size', gen, data). unat size' - unat i))" by simp
next
  fix dis :: "cint \<Rightarrow> cint \<Rightarrow> 'g \<Rightarrow> cint \<times> 'g"
    and i size' :: size_t and gen :: 'g and data :: "cint list"
    and x :: "cint \<times> 'g" and v :: cint and gen' :: 'g and data' :: "cint list"
  assume less: "i < size'"
  then have "i \<noteq> - 1" by (metis word_order.extremum_strict)
  then have "1 + i \<noteq> 0" by (simp add: add_eq_0_iff)
  then have "unat (1 + i) = Suc (unat i)" by (rule unatSuc)
  then have "unat (i + 1) = Suc (unat i)" by (simp only: add.commute)
  moreover from less have "unat i < unat size'" by (simp add: word_less_nat_alt)
  ultimately show "((dis, i + 1, size', gen', data'), (dis, i, size', gen, data))
      \<in> measure (\<lambda>(dis, i, size', gen, data). unat size' - unat i)"
    by simp
qed

definition generateRandomData ::
  "(cint \<Rightarrow> cint \<Rightarrow> 'g \<Rightarrow> cint \<times> 'g) \<Rightarrow> 'g \<Rightarrow> size_t \<Rightarrow> error + cint list" where
  "generateRandomData dis gen size' =
     (let data = vec_new size' in fill_random dis 0 size' gen data)"

text \<open>Line 204: the sizes that \<^verbatim>\<open>main\<close> tests.\<close>

definition sizes :: "size_t list" where
  "sizes = [100000, 1000000, 10000000]"

section \<open>\<^verbatim>\<open>measureTime\<close> and \<^verbatim>\<open>experiment3\<close>\<close>

text \<open>
  Lines 28-34. The clock is a parameter: \<open>now c\<close> is the \<open>c\<close>-th reading of
  \<^verbatim>\<open>high_resolution_clock::now()\<close> in milliseconds, and \<open>c\<close> counts the readings
  taken so far. A \<^verbatim>\<open>double\<close> that holds a time is a real number.
  \<open>func\<close> is the outcome of running the measured code.
\<close>

definition measureTime :: "(nat \<Rightarrow> real) \<Rightarrow> nat \<Rightarrow> error + 'r \<Rightarrow> error + real \<times> 'r \<times> nat" where
  "measureTime now c func =
     (let start = now c
      in bind func (\<lambda>r.
         let end' = now (c + 1)
         in Inr (end' - start, r, c + 2)))"

text \<open>\<^verbatim>\<open>numeric_limits<double>::max()\<close>, the largest finite IEEE 754 double.\<close>

definition DBL_MAX :: real where
  "DBL_MAX = 2 ^ 1024 - 2 ^ 971"

text \<open>
  Line 140: \<^verbatim>\<open>int maxK = min(32, (int)hwThreads * 4)\<close>. The cast reads the 32 bits of
  the \<^verbatim>\<open>unsigned int\<close> as an \<^verbatim>\<open>int\<close>; a product outside the range of \<^verbatim>\<open>int\<close> is
  undefined.
\<close>

definition maxK_of :: "cuint \<Rightarrow> error + int" where
  "maxK_of hwThreads =
     (let p = sint hwThreads * 4
      in if - (2 ^ 31) \<le> p \<and> p < 2 ^ 31 then Inr (min 32 p) else Inl SignedOverflow)"

text \<open>
  The variables of lines 151-154 that the sweep updates, and the counter of the clock.
\<close>

record sweep =
  results :: "(int \<times> real) list"
  bestK :: int
  bestTime :: real
  clock :: nat

text \<open>Lines 156-173: \<^verbatim>\<open>for (int k = 1; k <= maxK; ++k)\<close>.\<close>

function sweep_loop ::
  "(nat \<Rightarrow> real) \<Rightarrow> cint list \<Rightarrow> int \<Rightarrow> int \<Rightarrow> sweep \<Rightarrow> error + sweep" where
  "sweep_loop now data maxK k st =
     (if k \<le> maxK then
        bind (measureTime now (clock st) (parallelInclusiveScan data (of_int k)))
          (\<lambda>(time, result, c).
             let st = st\<lparr>results := results st @ [(k, time)], clock := c\<rparr>;
                 st = (if time < bestTime st then st\<lparr>bestTime := time, bestK := k\<rparr> else st)
             in sweep_loop now data maxK (k + 1) st)
      else Inr st)"
  by pat_completeness auto
termination
  by (relation "measure (\<lambda>(now, data, maxK, k, st). nat (maxK + 1 - k))") auto

text \<open>
  Lines 133-177 without the console output: the hardware concurrency \<open>hwThreads\<close> is a
  parameter; the result is \<open>maxK\<close>, the baseline time and the variables that the closing
  summary prints.
\<close>

definition experiment3 ::
  "cuint \<Rightarrow> (nat \<Rightarrow> real) \<Rightarrow> cint list \<Rightarrow> error + int \<times> real \<times> sweep" where
  "experiment3 hwThreads now data =
     bind (maxK_of hwThreads) (\<lambda>maxK.
     let result_base = vec_new (of_nat (length data))
     in
     bind (measureTime now 0 (inclusive_scan_into data 0 (length data) result_base 0))
       (\<lambda>(baseTime, result_base, c).
     bind (sweep_loop now data maxK 1
             \<lparr>results = [], bestK = 1, bestTime = DBL_MAX, clock = c\<rparr>)
       (\<lambda>st. Inr (maxK, baseTime, st))))"

section \<open>Notions used to state the results\<close>

text \<open>
  The following definitions are not part of the program. \<open>ceil_div N K\<close> is the
  quotient \<open>N / K\<close> rounded up, \<open>range_sum xs a b\<close> is the sum of \<open>xs[a..b)\<close>,
  \<open>chunk_sum\<close> the sum of the elements of a chunk, \<open>local_scan\<close> the sum from the
  start of the chunk of \<open>i\<close> up to \<open>i\<close>, and \<open>chunk_range\<close> the set of indices
  between the bounds that the code computes for chunk \<open>t\<close>. The two invariants describe
  the shared vectors when the threads in \<open>D\<close> have run.
\<close>

definition ceil_div :: "nat \<Rightarrow> nat \<Rightarrow> nat" where
  "ceil_div N K = (N + K - 1) div K"

definition range_sum :: "'a::monoid_add list \<Rightarrow> nat \<Rightarrow> nat \<Rightarrow> 'a" where
  "range_sum xs a b = sum_list (take (b - a) (drop a xs))"

definition chunk_sum :: "'a::monoid_add list \<Rightarrow> nat \<Rightarrow> nat \<Rightarrow> 'a" where
  "chunk_sum input C u =
     range_sum input (min (u * C) (length input)) (min (u * C + C) (length input))"

definition local_scan :: "'a::monoid_add list \<Rightarrow> nat \<Rightarrow> nat \<Rightarrow> 'a" where
  "local_scan input C i = range_sum input (i div C * C) (Suc i)"

definition phase1_inv ::
  "'a::monoid_add list \<Rightarrow> nat \<Rightarrow> nat \<Rightarrow> nat set \<Rightarrow> 'a list \<times> 'a list \<Rightarrow> bool" where
  "phase1_inv input K C D st =
     (case st of (r, lv) \<Rightarrow>
        length r = length input \<and> length lv = K \<and>
        (\<forall>i<length input. r ! i = (if i div C \<in> D then local_scan input C i else 0)) \<and>
        (\<forall>u<K. lv ! u = (if u \<in> D then chunk_sum input C u else 0)))"

definition phase3_inv ::
  "'a::monoid_add list \<Rightarrow> 'a list \<Rightarrow> nat \<Rightarrow> nat \<Rightarrow> nat set \<Rightarrow> 'a list \<Rightarrow> bool" where
  "phase3_inv r1 ps N C D r =
     (length r = N \<and>
      (\<forall>i<N. r ! i = (if i div C \<in> D then r1 ! i + ps ! (i div C - 1) else r1 ! i)))"

definition chunk_range :: "size_t \<Rightarrow> size_t \<Rightarrow> nat \<Rightarrow> nat set" where
  "chunk_range chunkSize n t =
     (case chunk_bounds chunkSize n t of (start, end') \<Rightarrow> {unat start ..< unat end'})"

text \<open>
  \<open>sweep_time now k\<close> is the time that the sweep measures for the thread count \<open>k\<close>:
  the baseline takes the clock readings 0 and 1, the call for \<open>k\<close> the readings \<open>2 k\<close>
  and \<open>2 k + 1\<close>. \<open>sweep_inv now k st\<close> describes the variables of the sweep when the
  iterations before \<open>k\<close> have run.
\<close>

definition sweep_time :: "(nat \<Rightarrow> real) \<Rightarrow> int \<Rightarrow> real" where
  "sweep_time now k = now (nat (2 * k) + 1) - now (nat (2 * k))"

definition sweep_inv :: "(nat \<Rightarrow> real) \<Rightarrow> int \<Rightarrow> sweep \<Rightarrow> bool" where
  "sweep_inv now k st =
     (1 \<le> k \<and> results st = map (\<lambda>j. (j, sweep_time now j)) [1..k - 1]
      \<and> clock st = nat (2 * k)
      \<and> (k = 1 \<longrightarrow> bestK st = 1 \<and> bestTime st = DBL_MAX)
      \<and> (1 < k \<longrightarrow> (bestK st, bestTime st) \<in> set (results st)
             \<and> (\<forall>(j, t)\<in>set (results st). bestTime st \<le> t \<and> (t = bestTime st \<longrightarrow> bestK st \<le> j))))"

section \<open>Arithmetic of the chunk bounds\<close>

lemma unat_scast_pos:
  fixes T :: cint
  assumes "0 \<le> sint T"
  shows "(scast T :: size_t) = of_nat (nat (sint T))"
proof -
  have "(scast T :: size_t) = word_of_int (sint T)" by (rule scast_eq)
  also have "\<dots> = of_nat (nat (sint T))" using assms by (rule word_of_int_nat)
  finally show ?thesis .
qed

lemma sint_bound32: "nat (sint (T::cint)) < 2 ^ 31"
  using sint_lt [of T] by simp

lemma unat_of_nat64: "a < 2 ^ 64 \<Longrightarrow> unat (of_nat a :: size_t) = a"
  by (simp add: unat_of_nat)

lemma le_of_nat64:
  "a < 2 ^ 64 \<Longrightarrow> b < 2 ^ 64 \<Longrightarrow> ((of_nat a :: size_t) \<le> of_nat b) = (a \<le> b)"
  by (simp add: word_le_nat_alt unat_of_nat64)

lemma less_of_nat64:
  "a < 2 ^ 64 \<Longrightarrow> b < 2 ^ 64 \<Longrightarrow> ((of_nat a :: size_t) < of_nat b) = (a < b)"
  by (simp add: word_less_nat_alt unat_of_nat64)

lemma min_of_nat64:
  "a < 2 ^ 64 \<Longrightarrow> b < 2 ^ 64 \<Longrightarrow> min (of_nat a :: size_t) (of_nat b) = of_nat (min a b)"
  by (simp add: min_def le_of_nat64)

lemma div_of_nat64:
  assumes "a < 2 ^ 64" "b < 2 ^ 64"
  shows "(of_nat a :: size_t) div of_nat b = of_nat (a div b)"
proof -
  have "unat ((of_nat a :: size_t) div of_nat b) = a div b"
    using assms by (simp add: unat_div unat_of_nat64)
  then show ?thesis
    by (metis of_nat_unat ucast_id)
qed

lemma ceil_div_upper: "0 < K \<Longrightarrow> K * ceil_div N K \<le> N + K - 1"
  by (simp add: ceil_div_def)

lemma ceil_div_lower: "0 < K \<Longrightarrow> N \<le> K * ceil_div N K"
proof -
  assume K: "0 < K"
  have "N + K - 1 = K * ((N + K - 1) div K) + (N + K - 1) mod K" by simp
  moreover have "(N + K - 1) mod K < K" using K by simp
  ultimately have "N + K - 1 < K * ((N + K - 1) div K) + K" by linarith
  then show ?thesis using K by (simp add: ceil_div_def)
qed

lemma ceil_div_pos: "0 < K \<Longrightarrow> 0 < N \<Longrightarrow> 0 < ceil_div N K"
  using ceil_div_lower [of K N] by (cases "ceil_div N K = 0") auto

lemma vector_max_size_nat: "unat vector_max_size = 2 ^ 63 - 1"
  by (simp add: vector_max_size_def)

lemma chunk_end_bound:
  assumes "0 < K" "t < K"
  shows "t * ceil_div N K + ceil_div N K \<le> N + K - 1"
proof -
  have "t * ceil_div N K + ceil_div N K = Suc t * ceil_div N K" by simp
  also have "\<dots> \<le> K * ceil_div N K" using assms by (intro mult_le_mono1) simp
  also have "\<dots> \<le> N + K - 1" using assms by (intro ceil_div_upper) simp
  finally show ?thesis .
qed

lemma chunkSize_of_eq:
  assumes N: "N \<le> unat vector_max_size" and T: "1 < sint T"
  shows "chunkSize_of (of_nat N) T = Inr (of_nat (ceil_div N (nat (sint T))))"
proof -
  let ?K = "nat (sint T)"
  have K: "1 < ?K" "?K < 2 ^ 31" using T sint_bound32 [of T] by auto
  have d: "(scast T :: size_t) = of_nat ?K" using T by (intro unat_scast_pos) simp
  have N': "N < 2 ^ 63" using N by (simp add: vector_max_size_nat)
  have "unat (of_nat ?K :: size_t) = ?K" using K by (intro unat_of_nat64) simp
  then have nz: "(of_nat ?K :: size_t) \<noteq> 0" using K by (metis less_numeral_extra(3) not_less_iff_gr_or_eq unat_0 zero_less_one less_trans)
  have "(of_nat N + of_nat ?K - 1 :: size_t) = of_nat (N + ?K - 1)"
    using K by (simp add: of_nat_diff)
  moreover have "(of_nat (N + ?K - 1) :: size_t) div of_nat ?K = of_nat ((N + ?K - 1) div ?K)"
    using K N' by (intro div_of_nat64) auto
  ultimately show ?thesis using nz d
    by (simp add: chunkSize_of_def ceil_div_def Let_def)
qed

lemma chunk_bounds_eq:
  assumes N: "N \<le> unat vector_max_size" and K: "0 < K" "K < 2 ^ 31" and t: "t < K"
  shows "chunk_bounds (of_nat (ceil_div N K)) (of_nat N) t
           = (of_nat (t * ceil_div N K), of_nat (min (t * ceil_div N K + ceil_div N K) N))"
proof -
  let ?C = "ceil_div N K"
  have N': "N < 2 ^ 63" using N by (simp add: vector_max_size_nat)
  have "t * ?C + ?C \<le> N + K - 1" using K t by (intro chunk_end_bound)
  then have b: "t * ?C + ?C < 2 ^ 64" using N' K by simp
  have "min (of_nat (t * ?C + ?C) :: size_t) (of_nat N) = of_nat (min (t * ?C + ?C) N)"
    using b N' by (intro min_of_nat64) auto
  then show ?thesis by (simp add: chunk_bounds_def Let_def)
qed

section \<open>The sequential scan computes the prefix sums\<close>

lemma length_scan_acc: "length (scan_acc a xs) = length xs"
  by (induction xs arbitrary: a) auto

lemma length_inclusive_scan: "length (inclusive_scan xs) = length xs"
  by (cases xs) (auto simp: length_scan_acc)

lemma scan_acc_nth:
  fixes a :: "'a::monoid_add"
  shows "i < length xs \<Longrightarrow> scan_acc a xs ! i = a + sum_list (take (Suc i) xs)"
proof (induction xs arbitrary: a i)
  case Nil
  then show ?case by simp
next
  case (Cons x xs)
  show ?case
  proof (cases i)
    case 0
    then show ?thesis by simp
  next
    case (Suc j)
    with Cons.prems have "j < length xs" by simp
    from Cons.IH [OF this, of "a + x"] Suc show ?thesis
      by (simp add: add.assoc)
  qed
qed

lemma inclusive_scan_nth:
  fixes xs :: "'a::monoid_add list"
  assumes "i < length xs"
  shows "inclusive_scan xs ! i = sum_list (take (Suc i) xs)"
proof (cases xs)
  case Nil
  with assms show ?thesis by simp
next
  case (Cons x ys)
  show ?thesis
  proof (cases i)
    case 0
    with Cons show ?thesis by simp
  next
    case (Suc j)
    with Cons assms have "j < length ys" by simp
    from scan_acc_nth [OF this, of x] Cons Suc show ?thesis by simp
  qed
qed

lemma range_sum_empty [simp]: "range_sum xs a a = 0"
  by (simp add: range_sum_def)

lemma range_sum_split:
  assumes "a \<le> b" "b \<le> c"
  shows "range_sum xs a b + range_sum xs b c = range_sum xs a c"
proof -
  have "take ((b - a) + (c - b)) (drop a xs)
          = take (b - a) (drop a xs) @ take (c - b) (drop (b - a) (drop a xs))"
    by (rule take_add)
  moreover have "(b - a) + (c - b) = c - a" using assms by simp
  moreover have "drop (b - a) (drop a xs) = drop b xs" using assms by simp
  ultimately have "take (c - a) (drop a xs) = take (b - a) (drop a xs) @ take (c - b) (drop b xs)"
    by (simp only:)
  then show ?thesis unfolding range_sum_def by (simp only: sum_list_append)
qed

lemma range_sum_prefix: "range_sum xs 0 b = sum_list (take b xs)"
  by (simp add: range_sum_def)

lemma inclusive_scan_into_effect:
  fixes src :: "'a::monoid_add list"
  assumes "a \<le> b" "b \<le> length src" "d + (b - a) \<le> length dst"
  shows "\<exists>r. inclusive_scan_into src a b dst d = Inr r \<and> length r = length dst \<and>
           (\<forall>i<length dst. r ! i = (if d \<le> i \<and> i < d + (b - a)
                                    then range_sum src a (Suc (a + (i - d))) else dst ! i))"
proof -
  let ?mid = "inclusive_scan (take (b - a) (drop a src))"
  let ?r = "take d dst @ ?mid @ drop (d + (b - a)) dst"
  have len_mid: "length ?mid = b - a" using assms by (simp add: length_inclusive_scan)
  have eq: "inclusive_scan_into src a b dst d = Inr ?r"
    using assms by (simp add: inclusive_scan_into_def)
  have len: "length ?r = length dst" using assms len_mid by simp
  have ld: "length (take d dst) = d" using assms by simp
  have nth: "?r ! i = (if d \<le> i \<and> i < d + (b - a)
                       then range_sum src a (Suc (a + (i - d))) else dst ! i)"
    if i: "i < length dst" for i
  proof -
    consider "i < d" | "d \<le> i" "i < d + (b - a)" | "d + (b - a) \<le> i" by linarith
    then show ?thesis
    proof cases
      case 1
      then have "?r ! i = take d dst ! i" using ld by (simp only: nth_append if_True)
      then show ?thesis using 1 by simp
    next
      case 2
      then have j: "i - d < b - a" and nd: "\<not> i < d" by simp_all
      have "?r ! i = (?mid @ drop (d + (b - a)) dst) ! (i - d)"
        using nd ld by (simp only: nth_append if_False)
      also have "\<dots> = ?mid ! (i - d)"
        using j len_mid by (simp only: nth_append if_True)
      also have "\<dots> = sum_list (take (Suc (i - d)) (take (b - a) (drop a src)))"
        using j assms by (intro inclusive_scan_nth) simp
      also have "\<dots> = sum_list (take (Suc (i - d)) (drop a src))"
        using j by (simp add: min_def)
      also have "\<dots> = range_sum src a (Suc (a + (i - d)))"
        by (simp add: range_sum_def)
      finally show ?thesis using 2 assms(1) by simp
    next
      case 3
      then have nd: "\<not> i < d" and nj: "\<not> i - d < b - a" by simp_all
      have "?r ! i = (?mid @ drop (d + (b - a)) dst) ! (i - d)"
        using nd ld by (simp only: nth_append if_False)
      also have "\<dots> = drop (d + (b - a)) dst ! (i - d - (b - a))"
        using nj len_mid by (simp only: nth_append if_False)
      also have "\<dots> = dst ! ((d + (b - a)) + (i - d - (b - a)))"
        using assms by (intro nth_drop) simp
      also have "(d + (b - a)) + (i - d - (b - a)) = i" using 3 by simp
      finally show ?thesis using 3 assms(1) by simp
    qed
  qed
  show ?thesis
  proof (intro exI conjI allI impI)
    show "inclusive_scan_into src a b dst d = Inr ?r" by (rule eq)
    show "length ?r = length dst" by (rule len)
    show "?r ! i = (if d \<le> i \<and> i < d + (b - a)
                     then range_sum src a (Suc (a + (i - d))) else dst ! i)"
      if "i < length dst" for i using that by (rule nth)
  qed
qed

section \<open>What one thread does\<close>

text \<open>
  The recursive equations of the loops are unfolded by hand.
\<close>

declare add_loop.simps [simp del] fill_random.simps [simp del] sweep_loop.simps [simp del]

lemma bind_Inr [simp]: "bind (Inr x) f = f x"
  by (simp add: bind_def)

lemma bind_Inl [simp]: "bind (Inl e) f = Inl e"
  by (simp add: bind_def)

lemma vec_get_Inr: "i < length v \<Longrightarrow> vec_get v i = Inr (v ! i)"
  by (simp add: vec_get_def)

lemma vec_set_Inr: "i < length v \<Longrightarrow> vec_set v i x = Inr (v[i := x])"
  by (simp add: vec_set_def)

lemma add_loop_effect:
  "e \<le> length r \<Longrightarrow>
   \<exists>r'. add_loop off i e r = Inr r' \<and> length r' = length r \<and>
        (\<forall>j<length r. r' ! j = (if i \<le> j \<and> j < e then r ! j + off else r ! j))"
proof (induction off i e r rule: add_loop.induct)
  case (1 off i e r)
  show ?case
  proof (cases "i < e")
    case False
    then have "add_loop off i e r = Inr r" by (subst add_loop.simps) simp
    moreover have "\<not> (i \<le> j \<and> j < e)" for j using False by simp
    ultimately show ?thesis by auto
  next
    case True
    let ?r1 = "r[i := r ! i + off]"
    from True "1.prems" have i: "i < length r" by simp
    have step: "add_loop off i e r = add_loop off (i + 1) e ?r1"
      using True i by (subst add_loop.simps) (simp add: vec_get_Inr vec_set_Inr)
    have "e \<le> length ?r1" using "1.prems" by simp
    from "1.IH" [OF True this] obtain r' where
      r': "add_loop off (i + 1) e ?r1 = Inr r'" "length r' = length ?r1"
      "\<forall>j<length ?r1. r' ! j = (if i + 1 \<le> j \<and> j < e then ?r1 ! j + off else ?r1 ! j)"
      by blast
    have "r' ! j = (if i \<le> j \<and> j < e then r ! j + off else r ! j)" if j: "j < length r" for j
    proof -
      from r'(3) j have "r' ! j = (if i + 1 \<le> j \<and> j < e then ?r1 ! j + off else ?r1 ! j)"
        by simp
      then show ?thesis using i True by (cases "j = i") auto
    qed
    with step r'(1,2) show ?thesis by simp
  qed
qed

lemma scan_chunk_effect:
  fixes input :: "'a::monoid_add list"
  assumes N: "length input \<le> unat vector_max_size" and K: "0 < K" "K < 2 ^ 31" and t: "t < K"
    and r: "length result = length input" and lv: "length lastValues = K"
    and C: "C = ceil_div (length input) K"
  shows "\<exists>result' lastValues'.
           scan_chunk input (of_nat C) (of_nat (length input)) t (result, lastValues)
             = Inr (result', lastValues') \<and>
           length result' = length input \<and> length lastValues' = K \<and>
           (\<forall>i<length input. result' ! i =
              (if t * C \<le> i \<and> i < t * C + C then range_sum input (t * C) (Suc i)
               else result ! i)) \<and>
           (\<forall>u<K. lastValues' ! u =
              (if u = t \<and> t * C < length input
               then range_sum input (t * C) (min (t * C + C) (length input))
               else lastValues ! u))"
proof -
  let ?N = "length input"
  let ?s = "t * C"
  let ?e = "min (t * C + C) ?N"
  have N': "?N < 2 ^ 63" using N by (simp add: vector_max_size_nat)
  have "t * C + C \<le> ?N + K - 1" unfolding C using K t by (intro chunk_end_bound)
  then have b: "t * C + C < 2 ^ 64" using N' K by simp
  then have bs: "?s < 2 ^ 64" and be: "?e < 2 ^ 64" by simp_all
  have cb: "chunk_bounds (of_nat C) (of_nat ?N) t = (of_nat ?s, of_nat ?e)"
    unfolding C using N K t by (rule chunk_bounds_eq)
  have skip: "((of_nat ?N :: size_t) \<le> of_nat ?s) = (?N \<le> ?s)"
    using bs N' by (intro le_of_nat64) simp_all
  show ?thesis
  proof (cases "?N \<le> ?s")
    case True
    then have "scan_chunk input (of_nat C) (of_nat ?N) t (result, lastValues)
                 = Inr (result, lastValues)"
      using cb skip by (simp add: scan_chunk_def del: of_nat_mult of_nat_add)
    moreover have "\<forall>i<?N. \<not> (?s \<le> i \<and> i < ?s + C)" using True by simp
    ultimately show ?thesis using r lv True by simp
  next
    case False
    then have sN: "?s < ?N" by simp
    then have "0 < ?N" by (cases input) simp_all
    then have Cpos: "0 < C" unfolding C using K(1) by (intro ceil_div_pos)
    then have se: "?s < ?e" using sN by simp
    have eN: "?e \<le> ?N" by simp
    from inclusive_scan_into_effect [of ?s ?e input ?s result] se eN r
    obtain r' where r':
      "inclusive_scan_into input ?s ?e result ?s = Inr r'" "length r' = ?N"
      "\<forall>i<?N. r' ! i = (if ?s \<le> i \<and> i < ?s + (?e - ?s)
                          then range_sum input ?s (Suc (?s + (i - ?s))) else result ! i)"
      by auto
    have nth: "r' ! i = (if ?s \<le> i \<and> i < ?s + C then range_sum input ?s (Suc i) else result ! i)"
      if i: "i < ?N" for i
    proof -
      have "?s + (?e - ?s) = ?e" using se by simp
      moreover have "i < ?e \<longleftrightarrow> i < ?s + C" using i by simp
      moreover have "?s \<le> i \<Longrightarrow> ?s + (i - ?s) = i" by simp
      ultimately show ?thesis using r'(3) i by (simp cong: if_cong)
    qed
    have e1: "unat (of_nat ?e - 1 :: size_t) = ?e - 1"
    proof -
      have "(of_nat ?e - 1 :: size_t) = of_nat (?e - 1)" using se by (simp add: of_nat_diff)
      moreover have "?e - 1 < 2 ^ 64" using be by simp
      ultimately show ?thesis by (simp only: unat_of_nat64)
    qed
    have em: "?e - 1 < ?N" using se eN by linarith
    have last: "r' ! (?e - 1) = range_sum input ?s ?e"
    proof -
      have "?s \<le> ?e - 1" "?e - 1 < ?s + C" "Suc (?e - 1) = ?e"
        using se eN by auto
      with nth [OF em] show ?thesis by simp
    qed
    let ?lv' = "lastValues[t := range_sum input ?s ?e]"
    have "scan_chunk input (of_nat C) (of_nat ?N) t (result, lastValues) = Inr (r', ?lv')"
    proof -
      have "\<not> (of_nat ?N :: size_t) \<le> of_nat ?s" using skip False by simp
      moreover have "unat (of_nat ?s :: size_t) = ?s"
        using bs by (rule unat_of_nat64)
      moreover have "unat (of_nat ?e :: size_t) = ?e"
        using be by (rule unat_of_nat64)
      moreover have "vec_get r' (?e - 1) = Inr (range_sum input ?s ?e)"
        using em r'(2) last by (simp only: vec_get_def if_True)
      moreover have "vec_set lastValues t (range_sum input ?s ?e) = Inr ?lv'"
        using t lv by (simp add: vec_set_def)
      ultimately show ?thesis
        using cb r'(1) e1 by (simp add: scan_chunk_def del: of_nat_mult of_nat_add)
    qed
    moreover have "\<forall>u<K. ?lv' ! u = (if u = t \<and> ?s < ?N then range_sum input ?s ?e
                                         else lastValues ! u)"
      using sN lv by (simp add: nth_list_update)
    ultimately show ?thesis using r'(2) lv nth by simp
  qed
qed

lemma in_chunk_iff:
  fixes C t i :: nat
  assumes "0 < C"
  shows "(t * C \<le> i \<and> i < t * C + C) = (i div C = t)"
proof
  assume a: "t * C \<le> i \<and> i < t * C + C"
  then have "C * t \<le> i" "i < C * Suc t" by (simp_all add: mult.commute)
  then show "i div C = t" by (rule div_nat_eqI)
next
  assume "i div C = t"
  then have t: "t = i div C" by simp
  have "i div C * C \<le> i" by simp
  moreover have "i < i div C * C + C"
    using assms dividend_less_div_times [of C i] by simp
  ultimately show "t * C \<le> i \<and> i < t * C + C" unfolding t by simp
qed

lemma add_offset_effect:
  fixes prefixSums :: "'a::monoid_add list"
  assumes N: "N \<le> unat vector_max_size" and K: "0 < K" "K < 2 ^ 31" and t: "0 < t" "t < K"
    and r: "length result = N" and ps: "length prefixSums = K"
    and C: "C = ceil_div N K"
  shows "\<exists>result'.
           add_offset (of_nat C) (of_nat N) prefixSums t result = Inr result' \<and>
           length result' = N \<and>
           (\<forall>i<N. result' ! i =
              (if t * C \<le> i \<and> i < t * C + C then result ! i + prefixSums ! (t - 1)
               else result ! i))"
proof -
  let ?s = "t * C"
  let ?e = "min (t * C + C) N"
  have N': "N < 2 ^ 63" using N by (simp add: vector_max_size_nat)
  have "t * C + C \<le> N + K - 1" unfolding C using K t by (intro chunk_end_bound)
  then have b: "t * C + C < 2 ^ 64" using N' K by simp
  then have bs: "?s < 2 ^ 64" and be: "?e < 2 ^ 64" by simp_all
  have cb: "chunk_bounds (of_nat C) (of_nat N) t = (of_nat ?s, of_nat ?e)"
    unfolding C using N K t(2) by (rule chunk_bounds_eq)
  have skip: "((of_nat N :: size_t) \<le> of_nat ?s) = (N \<le> ?s)"
    using bs N' by (intro le_of_nat64) simp_all
  show ?thesis
  proof (cases "N \<le> ?s")
    case True
    then have "add_offset (of_nat C) (of_nat N) prefixSums t result = Inr result"
      using cb skip by (simp add: add_offset_def del: of_nat_mult of_nat_add)
    moreover have "\<forall>i<N. \<not> (?s \<le> i \<and> i < ?s + C)" using True by simp
    ultimately show ?thesis using r by auto
  next
    case False
    let ?off = "prefixSums ! (t - 1)"
    have "?e \<le> length result" using r by simp
    from add_loop_effect [OF this, of ?off ?s] obtain r' where r':
      "add_loop ?off ?s ?e result = Inr r'" "length r' = length result"
      "\<forall>j<length result. r' ! j = (if ?s \<le> j \<and> j < ?e then result ! j + ?off else result ! j)"
      by blast
    have "add_offset (of_nat C) (of_nat N) prefixSums t result = Inr r'"
    proof -
      have "\<not> (of_nat N :: size_t) \<le> of_nat ?s" using skip False by simp
      moreover have "unat (of_nat ?s :: size_t) = ?s"
        using bs by (rule unat_of_nat64)
      moreover have "unat (of_nat ?e :: size_t) = ?e"
        using be by (rule unat_of_nat64)
      moreover have "vec_get prefixSums (t - 1) = Inr ?off"
        using t ps by (simp add: vec_get_def)
      ultimately show ?thesis
        using cb r'(1) t(1) by (simp add: add_offset_def del: of_nat_mult of_nat_add)
    qed
    moreover have "r' ! i = (if ?s \<le> i \<and> i < ?s + C then result ! i + ?off else result ! i)"
      if i: "i < N" for i
    proof -
      have "i < ?e \<longleftrightarrow> i < ?s + C" using i by simp
      then show ?thesis using r'(3) i r by (simp cong: if_cong)
    qed
    ultimately show ?thesis using r'(2) r by simp
  qed
qed

section \<open>The phases\<close>

text \<open>
  A phase is a run of thread bodies. An invariant indexed by the set \<open>D\<close> of threads that
  have run, kept by every body, holds for all threads of the list at the end, in whatever
  order they run. For the first phase the invariant says that the chunks of the threads
  in \<open>D\<close> hold their local scans and their carries, and that the rest is still zero; for
  the third phase, that the chunks of the threads in \<open>D\<close> have received their offset.
\<close>

lemma run_threads_invariant:
  assumes step: "\<And>t st D. t \<in> set ts \<Longrightarrow> t \<notin> D \<Longrightarrow> I D st
                   \<Longrightarrow> \<exists>st'. body t st = Inr st' \<and> I (insert t D) st'"
    and "distinct ts" and "D \<inter> set ts = {}" and "I D st"
  shows "\<exists>st'. run_threads body ts st = Inr st' \<and> I (D \<union> set ts) st'"
  using assms
proof (induction ts arbitrary: D st)
  case Nil
  then show ?case by simp
next
  case (Cons t ts)
  from Cons.prems have tD: "t \<notin> D" by simp
  from Cons.prems(1) [of t D st] tD Cons.prems(4)
  obtain st1 where st1: "body t st = Inr st1" "I (insert t D) st1" by auto
  have "\<exists>st'. run_threads body ts st1 = Inr st' \<and> I (insert t D \<union> set ts) st'"
  proof (rule Cons.IH)
    show "\<exists>st'. body u s = Inr st' \<and> I (insert u E) st'"
      if "u \<in> set ts" "u \<notin> E" "I E s" for u s E
      using that Cons.prems(1) [of u E s] by simp
    show "distinct ts" using Cons.prems(2) by simp
    show "insert t D \<inter> set ts = {}" using Cons.prems(2,3) by auto
    show "I (insert t D) st1" by (rule st1(2))
  qed
  then show ?case using st1(1) by simp
qed

lemma chunk_sum_empty:
  "length input \<le> u * C \<Longrightarrow> chunk_sum input C u = 0"
  by (simp add: chunk_sum_def)

lemma phase1_step:
  fixes input :: "'a::monoid_add list"
  assumes N: "length input \<le> unat vector_max_size" and K: "0 < K" "K < 2 ^ 31" and t: "t < K"
    and C: "C = ceil_div (length input) K"
    and inv: "phase1_inv input K C D st"
  shows "\<exists>st'. scan_chunk input (of_nat C) (of_nat (length input)) t st = Inr st' \<and>
               phase1_inv input K C (insert t D) st'"
proof -
  let ?N = "length input"
  obtain r lv where st: "st = (r, lv)" by (cases st)
  from inv st have r: "length r = ?N" and lv: "length lv = K"
    and rn: "\<And>i. i < ?N \<Longrightarrow> r ! i = (if i div C \<in> D then local_scan input C i else 0)"
    and ln: "\<And>u. u < K \<Longrightarrow> lv ! u = (if u \<in> D then chunk_sum input C u else 0)"
    by (simp_all add: phase1_inv_def)
  from scan_chunk_effect [OF N K t r lv C] obtain r' lv' where eff:
    "scan_chunk input (of_nat C) (of_nat ?N) t (r, lv) = Inr (r', lv')"
    "length r' = ?N" "length lv' = K"
    "\<And>i. i < ?N \<Longrightarrow> r' ! i =
        (if t * C \<le> i \<and> i < t * C + C then range_sum input (t * C) (Suc i) else r ! i)"
    "\<And>u. u < K \<Longrightarrow> lv' ! u =
        (if u = t \<and> t * C < ?N then range_sum input (t * C) (min (t * C + C) ?N) else lv ! u)"
    by blast
  have r'n: "r' ! i = (if i div C \<in> insert t D then local_scan input C i else 0)"
    if i: "i < ?N" for i
  proof -
    from i have "0 < ?N" by (cases input) simp_all
    then have "0 < C" unfolding C using K(1) by (intro ceil_div_pos)
    then have iff: "(t * C \<le> i \<and> i < t * C + C) = (i div C = t)" by (rule in_chunk_iff)
    show ?thesis
    proof (cases "i div C = t")
      case True
      then have "r' ! i = range_sum input (t * C) (Suc i)" using eff(4) [OF i] iff by simp
      then show ?thesis using True by (simp add: local_scan_def)
    next
      case False
      then have "r' ! i = r ! i" using eff(4) [OF i] iff by simp
      then show ?thesis using False rn [OF i] by simp
    qed
  qed
  have l'n: "lv' ! u = (if u \<in> insert t D then chunk_sum input C u else 0)"
    if u: "u < K" for u
  proof (cases "u = t")
    case False
    then show ?thesis using eff(5) [OF u] ln [OF u] by simp
  next
    case True
    show ?thesis
    proof (cases "t * C < ?N")
      case lt: True
      then have "lv' ! u = range_sum input (t * C) (min (t * C + C) ?N)"
        using eff(5) [OF u] True by simp
      moreover have "min (t * C) ?N = t * C" using lt by simp
      ultimately show ?thesis using True by (simp add: chunk_sum_def)
    next
      case ge: False
      then have z: "chunk_sum input C t = 0" by (intro chunk_sum_empty) simp
      from ge have "lv' ! u = lv ! u" using eff(5) [OF u] by simp
      then show ?thesis using True ln [OF u] z by simp
    qed
  qed
  have "phase1_inv input K C (insert t D) (r', lv')"
    using eff(2,3) r'n l'n by (simp add: phase1_inv_def)
  with eff(1) st show ?thesis by simp
qed

lemma vec_new_of_nat:
  "K < 2 ^ 64 \<Longrightarrow> vec_new (of_nat K) = replicate K (0::'a::zero)"
  by (simp add: vec_new_def unat_of_nat64)

lemma phase1_result:
  fixes input :: "'a::monoid_add list"
  assumes N: "length input \<le> unat vector_max_size" and T: "1 < sint T"
    and K: "K = nat (sint T)" and C: "C = ceil_div (length input) K"
    and order: "set order1 = {..<K}" "distinct order1"
  shows "\<exists>r lv. phase1 order1 input (of_nat C) (of_nat (length input)) T
                   (replicate (length input) 0) = Inr (r, lv) \<and>
           length r = length input \<and> length lv = K \<and>
           (\<forall>i<length input. r ! i = local_scan input C i) \<and>
           (\<forall>u<K. lv ! u = chunk_sum input C u)"
proof -
  let ?N = "length input"
  have Kb: "0 < K" "K < 2 ^ 31" using T sint_bound32 [of T] unfolding K by simp_all
  have sc: "(scast T :: size_t) = of_nat K" unfolding K using T by (intro unat_scast_pos) simp
  have vn: "vec_new (scast T) = replicate K (0::'a)"
    unfolding sc using Kb by (intro vec_new_of_nat) simp
  have init: "phase1_inv input K C {} (replicate ?N 0, replicate K 0)"
    by (simp add: phase1_inv_def)
  have "\<exists>st'. run_threads (scan_chunk input (of_nat C) (of_nat ?N)) order1
                 (replicate ?N 0, replicate K 0) = Inr st' \<and>
              phase1_inv input K C ({} \<union> set order1) st'"
  proof (rule run_threads_invariant [where I = "phase1_inv input K C"])
    show "\<exists>st'. scan_chunk input (of_nat C) (of_nat ?N) t st = Inr st' \<and>
                phase1_inv input K C (insert t D) st'"
      if "t \<in> set order1" "phase1_inv input K C D st" for t st D
    proof -
      from that(1) order(1) have "t < K" by simp
      from phase1_step [OF N Kb this C that(2)] show ?thesis .
    qed
    show "distinct order1" by (rule order(2))
    show "{} \<inter> set order1 = {}" by simp
    show "phase1_inv input K C {} (replicate ?N 0, replicate K 0)" by (rule init)
  qed
  then obtain r lv where run:
    "run_threads (scan_chunk input (of_nat C) (of_nat ?N)) order1
       (replicate ?N 0, replicate K 0) = Inr (r, lv)"
    "phase1_inv input K C {..<K} (r, lv)"
    using order(1) by auto
  have p1: "phase1 order1 input (of_nat C) (of_nat ?N) T (replicate ?N 0) = Inr (r, lv)"
    using vn run(1) by (simp add: phase1_def Let_def)
  have rn: "r ! i = local_scan input C i" if i: "i < ?N" for i
  proof -
    have "?N \<le> K * C" unfolding C using Kb(1) by (intro ceil_div_lower)
    with i have "i < K * C" by simp
    then have "i div C < K" by (rule less_mult_imp_div_less)
    then show ?thesis using run(2) i by (simp add: phase1_inv_def)
  qed
  have ln: "lv ! u = chunk_sum input C u" if "u < K" for u
    using run(2) that by (simp add: phase1_inv_def)
  from run(2) have "length r = ?N" "length lv = K" by (simp_all add: phase1_inv_def)
  with p1 rn ln show ?thesis by simp
qed

lemma carries_prefix:
  fixes input :: "'a::monoid_add list"
  assumes len: "length lv = K" and lv: "\<And>u. u < K \<Longrightarrow> lv ! u = chunk_sum input C u"
  shows "u < K \<Longrightarrow>
         sum_list (take (Suc u) lv) = range_sum input 0 (min (u * C + C) (length input))"
proof (induction u)
  case 0
  then have "take (Suc 0) lv = [lv ! 0]" using len by (cases lv) simp_all
  then have "sum_list (take (Suc 0) lv) = chunk_sum input C 0" using lv [OF 0] by simp
  then show ?case by (simp add: chunk_sum_def)
next
  case (Suc u)
  let ?N = "length input"
  from Suc.prems have u: "u < K" by simp
  have "take (Suc (Suc u)) lv = take (Suc u) lv @ [lv ! Suc u]"
    using Suc.prems len by (intro take_Suc_conv_app_nth) simp
  then have "sum_list (take (Suc (Suc u)) lv)
               = sum_list (take (Suc u) lv) + chunk_sum input C (Suc u)"
    using lv [OF Suc.prems] by simp
  also have "\<dots> = range_sum input 0 (min (u * C + C) ?N)
                     + range_sum input (min (Suc u * C) ?N) (min (Suc u * C + C) ?N)"
    using Suc.IH [OF u] by (simp only: chunk_sum_def)
  also have "min (Suc u * C) ?N = min (u * C + C) ?N" by simp
  also have "range_sum input 0 (min (u * C + C) ?N)
               + range_sum input (min (u * C + C) ?N) (min (Suc u * C + C) ?N)
             = range_sum input 0 (min (Suc u * C + C) ?N)"
    by (intro range_sum_split) simp_all
  finally show ?case .
qed

lemma phase2_result:
  fixes lv :: "'a::monoid_add list"
  assumes T: "1 < sint T" and K: "K = nat (sint T)" and len: "length lv = K"
  shows "\<exists>ps. phase2 lv T = Inr ps \<and> length ps = K \<and>
              (\<forall>u<K. ps ! u = sum_list (take (Suc u) lv))"
proof -
  have Kb: "0 < K" "K < 2 ^ 31" using T sint_bound32 [of T] unfolding K by simp_all
  have sc: "(scast T :: size_t) = of_nat K" unfolding K using T by (intro unat_scast_pos) simp
  have vn: "vec_new (scast T) = replicate K (0::'a)"
    unfolding sc using Kb by (intro vec_new_of_nat) simp
  from inclusive_scan_into_effect [of 0 K lv 0 "replicate K 0"] len
  obtain ps where ps: "inclusive_scan_into lv 0 K (replicate K 0) 0 = Inr ps"
    "length ps = K"
    "\<forall>i<K. ps ! i = (if 0 \<le> i \<and> i < 0 + (K - 0) then range_sum lv 0 (Suc (0 + (i - 0)))
                       else replicate K 0 ! i)"
    by auto
  have "phase2 lv T = Inr ps"
    using vn ps(1) T K by (simp add: phase2_def Let_def)
  moreover have "\<forall>u<K. ps ! u = sum_list (take (Suc u) lv)"
    using ps(3) by (simp add: range_sum_prefix)
  ultimately show ?thesis using ps(2) by simp
qed

lemma phase3_step:
  fixes ps :: "'a::monoid_add list"
  assumes N: "N \<le> unat vector_max_size" and K: "0 < K" "K < 2 ^ 31" and t: "0 < t" "t < K"
    and C: "C = ceil_div N K" and ps: "length ps = K"
    and tD: "t \<notin> D" and inv: "phase3_inv r1 ps N C D r"
  shows "\<exists>r'. add_offset (of_nat C) (of_nat N) ps t r = Inr r' \<and>
              phase3_inv r1 ps N C (insert t D) r'"
proof -
  from inv have r: "length r = N"
    and rn: "\<And>i. i < N \<Longrightarrow> r ! i = (if i div C \<in> D then r1 ! i + ps ! (i div C - 1) else r1 ! i)"
    by (simp_all add: phase3_inv_def)
  from add_offset_effect [OF N K t r ps C] obtain r' where eff:
    "add_offset (of_nat C) (of_nat N) ps t r = Inr r'" "length r' = N"
    "\<And>i. i < N \<Longrightarrow> r' ! i =
        (if t * C \<le> i \<and> i < t * C + C then r ! i + ps ! (t - 1) else r ! i)"
    by blast
  have "r' ! i = (if i div C \<in> insert t D then r1 ! i + ps ! (i div C - 1) else r1 ! i)"
    if i: "i < N" for i
  proof -
    from i have "0 < N" by simp
    then have "0 < C" unfolding C using K(1) by (intro ceil_div_pos)
    then have iff: "(t * C \<le> i \<and> i < t * C + C) = (i div C = t)" by (rule in_chunk_iff)
    show ?thesis
    proof (cases "i div C = t")
      case True
      then have "r' ! i = r ! i + ps ! (t - 1)" using eff(3) [OF i] iff by simp
      moreover have "r ! i = r1 ! i" using rn [OF i] True tD by simp
      ultimately show ?thesis using True by simp
    next
      case False
      then have "r' ! i = r ! i" using eff(3) [OF i] iff by simp
      then show ?thesis using False rn [OF i] by simp
    qed
  qed
  then have "phase3_inv r1 ps N C (insert t D) r'"
    using eff(2) by (simp add: phase3_inv_def)
  with eff(1) show ?thesis by blast
qed

lemma phase3_result:
  fixes ps :: "'a::monoid_add list"
  assumes N: "N \<le> unat vector_max_size" and K: "0 < K" "K < 2 ^ 31"
    and C: "C = ceil_div N K" and ps: "length ps = K" and r1: "length r1 = N"
    and order: "set order3 = {1..<K}" "distinct order3"
  shows "\<exists>r3. phase3 order3 (of_nat C) (of_nat N) ps r1 = Inr r3 \<and> length r3 = N \<and>
              (\<forall>i<N. r3 ! i = (if 0 < i div C then r1 ! i + ps ! (i div C - 1) else r1 ! i))"
proof -
  have init: "phase3_inv r1 ps N C {} r1" using r1 by (simp add: phase3_inv_def)
  have "\<exists>r3. run_threads (add_offset (of_nat C) (of_nat N) ps) order3 r1 = Inr r3 \<and>
              phase3_inv r1 ps N C ({} \<union> set order3) r3"
  proof (rule run_threads_invariant [where I = "phase3_inv r1 ps N C"])
    show "\<exists>r'. add_offset (of_nat C) (of_nat N) ps t r = Inr r' \<and>
               phase3_inv r1 ps N C (insert t D) r'"
      if "t \<in> set order3" "t \<notin> D" "phase3_inv r1 ps N C D r" for t r D
    proof -
      from that(1) order(1) have t: "0 < t" "t < K" by simp_all
      from phase3_step [OF N K t C ps that(2,3)] show ?thesis .
    qed
    show "distinct order3" by (rule order(2))
    show "{} \<inter> set order3 = {}" by simp
    show "phase3_inv r1 ps N C {} r1" by (rule init)
  qed
  then obtain r3 where run:
    "run_threads (add_offset (of_nat C) (of_nat N) ps) order3 r1 = Inr r3"
    "phase3_inv r1 ps N C {1..<K} r3"
    using order(1) by auto
  have "r3 ! i = (if 0 < i div C then r1 ! i + ps ! (i div C - 1) else r1 ! i)"
    if i: "i < N" for i
  proof -
    have "N \<le> K * C" unfolding C using K(1) by (intro ceil_div_lower)
    with i have "i < K * C" by simp
    then have "i div C < K" by (rule less_mult_imp_div_less)
    then have "(i div C \<in> {1..<K}) = (0 < i div C)" by auto
    then show ?thesis using run(2) i by (simp add: phase3_inv_def)
  qed
  moreover from run(2) have "length r3 = N" by (simp add: phase3_inv_def)
  ultimately show ?thesis using run(1) by (simp add: phase3_def)
qed

section \<open>The result of the three phases\<close>

lemma local_plus_offset:
  fixes input :: "'a::comm_monoid_add list"
  assumes C: "0 < C" and i: "i < length input"
  shows "(if 0 < i div C
          then local_scan input C i + range_sum input 0 (min ((i div C - 1) * C + C) (length input))
          else local_scan input C i) = sum_list (take (Suc i) input)"
proof (cases "0 < i div C")
  case False
  then have "i div C * C = 0" by simp
  then show ?thesis using False by (simp add: local_scan_def range_sum_prefix)
next
  case True
  let ?q = "i div C"
  have qi: "?q * C \<le> i" by simp
  then have qs: "?q * C \<le> Suc i" by linarith
  have e1: "(?q - 1) * C + C = ?q * C" using True by (cases ?q) simp_all
  have "?q * C \<le> length input" using qi i by linarith
  then have e2: "min (?q * C) (length input) = ?q * C" by (rule min_absorb1)
  have "local_scan input C i + range_sum input 0 (min ((?q - 1) * C + C) (length input))
          = range_sum input (?q * C) (Suc i) + range_sum input 0 (?q * C)"
    unfolding e1 e2 by (simp only: local_scan_def)
  also have "\<dots> = range_sum input 0 (?q * C) + range_sum input (?q * C) (Suc i)"
    by (rule add.commute)
  also have "\<dots> = range_sum input 0 (Suc i)"
    using qs by (intro range_sum_split) simp_all
  finally show ?thesis using True by (simp add: range_sum_prefix)
qed

lemma parallel_phases_trace:
  fixes input :: "'a::comm_monoid_add list"
  assumes N: "length input \<le> unat vector_max_size" and T: "1 < sint T"
    and K: "K = nat (sint T)" and C: "C = ceil_div (length input) K"
    and order1: "set order1 = {..<K}" "distinct order1"
    and order3: "set order3 = {1..<K}" "distinct order3"
  shows "\<exists>r1 lv ps r3.
           chunkSize_of (of_nat (length input)) T = Inr (of_nat C) \<and>
           phase1 order1 input (of_nat C) (of_nat (length input)) T
             (replicate (length input) 0) = Inr (r1, lv) \<and>
           phase2 lv T = Inr ps \<and>
           phase3 order3 (of_nat C) (of_nat (length input)) ps r1 = Inr r3 \<and>
           length r1 = length input \<and> length lv = K \<and> length ps = K \<and>
           (\<forall>i<length input. r1 ! i = local_scan input C i) \<and>
           (\<forall>u<K. lv ! u = chunk_sum input C u) \<and>
           (\<forall>u<K. ps ! u = range_sum input 0 (min (u * C + C) (length input))) \<and>
           (\<forall>i<length input.
              r3 ! i = (if 0 < i div C then r1 ! i + ps ! (i div C - 1) else r1 ! i)) \<and>
           r3 = inclusive_scan input"
proof -
  let ?N = "length input"
  have Kb: "0 < K" "K < 2 ^ 31" using T sint_bound32 [of T] unfolding K by simp_all
  have cs: "chunkSize_of (of_nat ?N) T = Inr (of_nat C)"
    unfolding C K using N T by (rule chunkSize_of_eq)
  from phase1_result [OF N T K C order1] obtain r1 lv where p1:
    "phase1 order1 input (of_nat C) (of_nat ?N) T (replicate ?N 0) = Inr (r1, lv)"
    "length r1 = ?N" "length lv = K"
    "\<And>i. i < ?N \<Longrightarrow> r1 ! i = local_scan input C i"
    "\<And>u. u < K \<Longrightarrow> lv ! u = chunk_sum input C u"
    by blast
  from phase2_result [OF T K p1(3)] obtain ps where p2:
    "phase2 lv T = Inr ps" "length ps = K"
    "\<And>u. u < K \<Longrightarrow> ps ! u = sum_list (take (Suc u) lv)"
    by blast
  have psn: "ps ! u = range_sum input 0 (min (u * C + C) ?N)" if u: "u < K" for u
    using p2(3) [OF u] carries_prefix [OF p1(3) p1(5) u] by simp
  from phase3_result [OF N Kb C p2(2) p1(2) order3] obtain r3 where p3:
    "phase3 order3 (of_nat C) (of_nat ?N) ps r1 = Inr r3" "length r3 = ?N"
    "\<And>i. i < ?N \<Longrightarrow> r3 ! i = (if 0 < i div C then r1 ! i + ps ! (i div C - 1) else r1 ! i)"
    by blast
  have "r3 = inclusive_scan input"
  proof (rule nth_equalityI)
    show "length r3 = length (inclusive_scan input)"
      using p3(2) by (simp add: length_inclusive_scan)
    show "r3 ! i = inclusive_scan input ! i" if "i < length r3" for i
    proof -
      from that p3(2) have i: "i < ?N" by simp
      then have "0 < ?N" by (cases input) simp_all
      then have Cpos: "0 < C" unfolding C using Kb(1) by (intro ceil_div_pos)
      have "?N \<le> K * C" unfolding C using Kb(1) by (intro ceil_div_lower)
      with i have "i < K * C" by simp
      then have q: "i div C < K" by (rule less_mult_imp_div_less)
      then have q1: "i div C - 1 < K" by simp
      have "r3 ! i = (if 0 < i div C
                      then local_scan input C i
                             + range_sum input 0 (min ((i div C - 1) * C + C) ?N)
                      else local_scan input C i)"
        using p3(3) [OF i] p1(4) [OF i] psn [OF q1] by simp
      also have "\<dots> = sum_list (take (Suc i) input)"
        using Cpos i by (rule local_plus_offset)
      also have "\<dots> = inclusive_scan input ! i"
        using i by (simp add: inclusive_scan_nth)
      finally show ?thesis .
    qed
  qed
  with cs p1(1,2,3) p2(1,2) p3(1) p1(4,5) psn p3(3) show ?thesis by blast
qed

lemma parallel_phases_correct:
  fixes input :: "'a::comm_monoid_add list"
  assumes N: "length input \<le> unat vector_max_size" and T: "1 < sint T"
    and order1: "set order1 = {..<nat (sint T)}" "distinct order1"
    and order3: "set order3 = {1..<nat (sint T)}" "distinct order3"
  shows "parallel_phases order1 order3 input (of_nat (length input)) T
           (replicate (length input) 0)
         = Inr (inclusive_scan input, length order1 + length order3)"
proof -
  from parallel_phases_trace [OF N T refl refl order1 order3]
  obtain r1 lv ps C where
    "chunkSize_of (of_nat (length input)) T = Inr (of_nat C)"
    "phase1 order1 input (of_nat C) (of_nat (length input)) T
       (replicate (length input) 0) = Inr (r1, lv)"
    "phase2 lv T = Inr ps"
    "phase3 order3 (of_nat C) (of_nat (length input)) ps r1 = Inr (inclusive_scan input)"
    by blast
  then show ?thesis by (simp add: parallel_phases_def)
qed

section \<open>The guard and the function\<close>

lemma fallback_scan:
  fixes input :: "'a::{plus,zero} list"
  shows "inclusive_scan_into input 0 (length input) (replicate (length input) 0) 0
           = Inr (inclusive_scan input)"
  by (simp add: inclusive_scan_into_def)

lemma less_1000_of_nat:
  "N < 2 ^ 63 \<Longrightarrow> ((of_nat N :: size_t) < 1000) = (N < 1000)"
proof -
  assume "N < 2 ^ 63"
  then have "unat (of_nat N :: size_t) = N" by (intro unat_of_nat64) simp
  then show ?thesis by (simp add: word_less_nat_alt)
qed

lemma scan_in_fallback:
  fixes input :: "'a::{plus,zero} list"
  assumes N: "length input \<le> unat vector_max_size"
    and guard: "sint T \<le> 1 \<or> length input < 1000"
  shows "parallelInclusiveScan_in order1 order3 input T = Inr (inclusive_scan input, 0)"
proof -
  have N': "length input < 2 ^ 63" using N by (simp add: vector_max_size_nat)
  then have "vec_new (of_nat (length input)) = replicate (length input) (0::'a)"
    by (intro vec_new_of_nat) simp
  moreover have "T \<le>s 1 \<or> (of_nat (length input) :: size_t) < 1000"
    using guard N' by (simp add: word_sle_eq less_1000_of_nat)
  ultimately show ?thesis
    by (simp add: parallelInclusiveScan_in_def Let_def fallback_scan)
qed

lemma scan_in_parallel:
  fixes input :: "'a::comm_monoid_add list"
  assumes N: "length input \<le> unat vector_max_size"
    and guard: "1 < sint T" "1000 \<le> length input"
    and order1: "set order1 = {..<nat (sint T)}" "distinct order1"
    and order3: "set order3 = {1..<nat (sint T)}" "distinct order3"
  shows "parallelInclusiveScan_in order1 order3 input T
           = Inr (inclusive_scan input, length order1 + length order3)"
proof -
  have N': "length input < 2 ^ 63" using N by (simp add: vector_max_size_nat)
  then have "vec_new (of_nat (length input)) = replicate (length input) (0::'a)"
    by (intro vec_new_of_nat) simp
  moreover have "\<not> (T \<le>s 1 \<or> (of_nat (length input) :: size_t) < 1000)"
    using guard N' by (simp add: word_sle_eq less_1000_of_nat)
  ultimately show ?thesis
    using parallel_phases_correct [OF N guard(1) order1 order3]
    by (simp add: parallelInclusiveScan_in_def Let_def)
qed

lemma spawn_orders:
  "set (phase1_threads T) = {..<nat (sint T)}" "distinct (phase1_threads T)"
  "set (phase3_threads T) = {1..<nat (sint T)}" "distinct (phase3_threads T)"
  by (auto simp: phase1_threads_def phase3_threads_def)

lemma scan_run_correct:
  fixes input :: "'a::comm_monoid_add list"
  assumes N: "length input \<le> unat vector_max_size"
  shows "\<exists>k. parallelInclusiveScan_run input T = Inr (inclusive_scan input, k)"
proof (cases "sint T \<le> 1 \<or> length input < 1000")
  case True
  from scan_in_fallback [OF N True] show ?thesis
    by (simp add: parallelInclusiveScan_run_def)
next
  case False
  then have g: "1 < sint T" "1000 \<le> length input" by simp_all
  from scan_in_parallel [OF N g spawn_orders] show ?thesis
    by (simp add: parallelInclusiveScan_run_def)
qed

lemma scan_correct:
  fixes input :: "'a::comm_monoid_add list"
  assumes N: "length input \<le> unat vector_max_size"
  shows "parallelInclusiveScan input T = Inr (inclusive_scan input)"
  using scan_run_correct [OF N, of T] by (auto simp: parallelInclusiveScan_def)

section \<open>Consequences for the output of the scan\<close>

lemma inclusive_scan_Suc_diff:
  fixes input :: "'a::ab_group_add list"
  assumes "Suc i < length input"
  shows "inclusive_scan input ! Suc i - inclusive_scan input ! i = input ! Suc i"
proof -
  from assms have i: "i < length input" by simp
  have "take (Suc (Suc i)) input = take (Suc i) input @ [input ! Suc i]"
    using assms by (rule take_Suc_conv_app_nth)
  then have "sum_list (take (Suc (Suc i)) input) = sum_list (take (Suc i) input) + input ! Suc i"
    by simp
  then show ?thesis
    using inclusive_scan_nth [OF assms] inclusive_scan_nth [OF i] by simp
qed

lemma inclusive_scan_0:
  fixes input :: "'a::monoid_add list"
  shows "input \<noteq> [] \<Longrightarrow> inclusive_scan input ! 0 = input ! 0"
  by (cases input) simp_all

text \<open>
  The elements of the vectors that \<^verbatim>\<open>main\<close> scans are 32-bit \<^verbatim>\<open>int\<close>s. As long as no
  prefix sum of the input leaves the range of \<^verbatim>\<open>int\<close>, the signed values of the output
  are the prefix sums of the signed values of the input.
\<close>

lemma sint_prefix_sum:
  fixes ws :: "cint list"
  assumes fit: "\<And>k. k \<le> length ws \<Longrightarrow>
                  - (2 ^ 31) \<le> sum_list (map sint (take k ws))
                  \<and> sum_list (map sint (take k ws)) < 2 ^ 31"
  shows "k \<le> length ws \<Longrightarrow> sint (sum_list (take k ws)) = sum_list (map sint (take k ws))"
proof (induction k)
  case 0
  then show ?case by simp
next
  case (Suc k)
  then have k: "k < length ws" by simp
  then have tk: "take (Suc k) ws = take k ws @ [ws ! k]" by (rule take_Suc_conv_app_nth)
  let ?s = "sum_list (map sint (take k ws)) + sint (ws ! k)"
  have s: "sum_list (map sint (take (Suc k) ws)) = ?s" unfolding tk by simp
  from fit [OF Suc.prems] have lo: "- (2 ^ 31) \<le> ?s" and hi: "?s < 2 ^ 31"
    unfolding s by simp_all
  have "sint (sum_list (take (Suc k) ws)) = sint (sum_list (take k ws) + ws ! k)"
    unfolding tk by simp
  also have "\<dots> = signed_take_bit (LENGTH(32) - 1) (sint (sum_list (take k ws)) + sint (ws ! k))"
    by (rule sint_word_ariths(1))
  also have "\<dots> = signed_take_bit 31 ?s" using Suc.IH k by simp
  also have "\<dots> = ?s" using lo hi by (rule signed_take_bit_int_eq_self)
  finally show ?case unfolding s .
qed

lemma scan_of_int32_without_overflow:
  fixes ws :: "cint list"
  assumes N: "length ws \<le> unat vector_max_size"
    and fit: "\<And>k. k \<le> length ws \<Longrightarrow>
                  - (2 ^ 31) \<le> sum_list (map sint (take k ws))
                  \<and> sum_list (map sint (take k ws)) < 2 ^ 31"
  shows "\<exists>out. parallelInclusiveScan ws T = Inr out \<and> length out = length ws
           \<and> (\<forall>i<length ws. sint (out ! i) = sum_list (map sint (take (Suc i) ws)))
           \<and> (\<forall>i. Suc i < length ws \<longrightarrow> sint (out ! Suc i) - sint (out ! i) = sint (ws ! Suc i))
           \<and> ((\<forall>x\<in>set ws. 0 \<le> sint x)
                \<longrightarrow> (\<forall>i. Suc i < length ws \<longrightarrow> sint (out ! i) \<le> sint (out ! Suc i)))"
proof -
  let ?out = "inclusive_scan ws"
  have v: "sint (?out ! i) = sum_list (map sint (take (Suc i) ws))" if i: "i < length ws" for i
  proof -
    from i have "Suc i \<le> length ws" by simp
    from sint_prefix_sum [of ws "Suc i", OF fit this] show ?thesis
      using inclusive_scan_nth [OF i] by simp
  qed
  have d: "sint (?out ! Suc i) - sint (?out ! i) = sint (ws ! Suc i)"
    if i: "Suc i < length ws" for i
  proof -
    from i have i': "i < length ws" by simp
    have "take (Suc (Suc i)) ws = take (Suc i) ws @ [ws ! Suc i]"
      using i by (rule take_Suc_conv_app_nth)
    then have "sum_list (map sint (take (Suc (Suc i)) ws))
                 = sum_list (map sint (take (Suc i) ws)) + sint (ws ! Suc i)" by simp
    then show ?thesis using v [OF i] v [OF i'] by simp
  qed
  have m: "sint (?out ! i) \<le> sint (?out ! Suc i)"
    if nn: "\<forall>x\<in>set ws. 0 \<le> sint x" and i: "Suc i < length ws" for i
  proof -
    from nn i have "0 \<le> sint (ws ! Suc i)" by simp
    then show ?thesis using d [OF i] by simp
  qed
  show ?thesis
  proof (intro exI conjI)
    show "parallelInclusiveScan ws T = Inr ?out" using N by (rule scan_correct)
    show "length ?out = length ws" by (rule length_inclusive_scan)
    show "\<forall>i<length ws. sint (?out ! i) = sum_list (map sint (take (Suc i) ws))"
      using v by blast
    show "\<forall>i. Suc i < length ws \<longrightarrow> sint (?out ! Suc i) - sint (?out ! i) = sint (ws ! Suc i)"
      using d by blast
    show "(\<forall>x\<in>set ws. 0 \<le> sint x)
            \<longrightarrow> (\<forall>i. Suc i < length ws \<longrightarrow> sint (?out ! i) \<le> sint (?out ! Suc i))"
      using m by blast
  qed
qed

text \<open>
  For elements of an ordered commutative group, such as the mathematical integers, where
  no sum overflows, the differences of the output are the elements of the input, and the
  output of a non-negative input is non-decreasing.
\<close>

lemma scan_differences_in_ordered_group:
  fixes input :: "'a::ordered_ab_group_add list"
  assumes "length input \<le> unat vector_max_size" and "1 \<le>s T"
  shows "\<exists>output. parallelInclusiveScan input T = Inr output
           \<and> length output = length input
           \<and> (input \<noteq> [] \<longrightarrow> output ! 0 = input ! 0)
           \<and> (\<forall>i. Suc i < length input \<longrightarrow> output ! Suc i - output ! i = input ! Suc i)
           \<and> ((\<forall>x\<in>set input. 0 \<le> x)
                \<longrightarrow> (\<forall>i. Suc i < length input \<longrightarrow> output ! i \<le> output ! Suc i))"
proof -
  let ?out = "inclusive_scan input"
  have d: "?out ! Suc i - ?out ! i = input ! Suc i" if "Suc i < length input" for i
    using that by (rule inclusive_scan_Suc_diff)
  have m: "?out ! i \<le> ?out ! Suc i"
    if nn: "\<forall>x\<in>set input. 0 \<le> x" and i: "Suc i < length input" for i
  proof -
    from nn i have "0 \<le> input ! Suc i" by simp
    then have "0 \<le> ?out ! Suc i - ?out ! i" using d [OF i] by simp
    then show ?thesis by simp
  qed
  show ?thesis
  proof (intro exI conjI)
    show "parallelInclusiveScan input T = Inr ?out" using assms(1) by (rule scan_correct)
    show "length ?out = length input" by (rule length_inclusive_scan)
    show "input \<noteq> [] \<longrightarrow> ?out ! 0 = input ! 0" by (simp add: inclusive_scan_0)
    show "\<forall>i. Suc i < length input \<longrightarrow> ?out ! Suc i - ?out ! i = input ! Suc i"
      using d by blast
    show "(\<forall>x\<in>set input. 0 \<le> x) \<longrightarrow> (\<forall>i. Suc i < length input \<longrightarrow> ?out ! i \<le> ?out ! Suc i)"
      using m by blast
  qed
qed

section \<open>The chunks as sets of indices\<close>

lemma ceil_div_ceiling:
  assumes K: "0 < K"
  shows "int (ceil_div N K) = \<lceil>real N / real K\<rceil>"
proof (rule sym, rule ceiling_unique)
  have "K * ceil_div N K \<le> N + K - 1" using K by (rule ceil_div_upper)
  then have "K * ceil_div N K < N + K" using K by simp
  then have "real (K * ceil_div N K) < real (N + K)" by (simp only: of_nat_less_iff)
  then have "(real (ceil_div N K) - 1) * real K < real N" by (simp add: algebra_simps)
  then have "real (ceil_div N K) - 1 < real N / real K"
    using K by (simp add: pos_less_divide_eq)
  then show "of_int (int (ceil_div N K)) - 1 < real N / real K" by simp
next
  have "N \<le> K * ceil_div N K" using K by (rule ceil_div_lower)
  then have "real N \<le> real (K * ceil_div N K)" by (simp only: of_nat_le_iff)
  then have "real N \<le> real (ceil_div N K) * real K" by (simp add: mult.commute)
  then have "real N / real K \<le> real (ceil_div N K)"
    using K by (simp add: pos_divide_le_eq)
  then show "real N / real K \<le> of_int (int (ceil_div N K))" by simp
qed

lemma skipped_chunk:
  assumes "n \<le> fst (chunk_bounds chunkSize n t)"
  shows "scan_chunk input chunkSize n t st = Inr st"
    and "add_offset chunkSize n prefixSums t result = Inr result"
proof -
  obtain start end' where cb: "chunk_bounds chunkSize n t = (start, end')"
    by (cases "chunk_bounds chunkSize n t")
  with assms have "n \<le> start" by simp
  then show "scan_chunk input chunkSize n t st = Inr st"
    using cb by (cases st) (simp add: scan_chunk_def)
  from \<open>n \<le> start\<close> show "add_offset chunkSize n prefixSums t result = Inr result"
    using cb by (simp add: add_offset_def)
qed

lemma chunk_bounds_unat:
  assumes N: "N \<le> unat vector_max_size" and K: "0 < K" "K < 2 ^ 31" and t: "t < K"
    and C: "C = ceil_div N K"
  shows "unat (fst (chunk_bounds (of_nat C) (of_nat N) t)) = t * C"
    and "unat (snd (chunk_bounds (of_nat C) (of_nat N) t)) = min (t * C + C) N"
    and "((of_nat N :: size_t) \<le> fst (chunk_bounds (of_nat C) (of_nat N) t)) = (N \<le> t * C)"
proof -
  have N': "N < 2 ^ 63" using N by (simp add: vector_max_size_nat)
  have "t * C + C \<le> N + K - 1" unfolding C using K t by (intro chunk_end_bound)
  then have b: "t * C + C < 2 ^ 64" using N' K by simp
  then have bs: "t * C < 2 ^ 64" and be: "min (t * C + C) N < 2 ^ 64" by simp_all
  have cb: "chunk_bounds (of_nat C) (of_nat N) t = (of_nat (t * C), of_nat (min (t * C + C) N))"
    unfolding C using N K t by (rule chunk_bounds_eq)
  show "unat (fst (chunk_bounds (of_nat C) (of_nat N) t)) = t * C"
    unfolding cb fst_conv using bs by (rule unat_of_nat64)
  show "unat (snd (chunk_bounds (of_nat C) (of_nat N) t)) = min (t * C + C) N"
    unfolding cb snd_conv using be by (rule unat_of_nat64)
  show "((of_nat N :: size_t) \<le> fst (chunk_bounds (of_nat C) (of_nat N) t)) = (N \<le> t * C)"
    unfolding cb fst_conv using bs N' by (intro le_of_nat64) simp_all
qed

lemma chunk_range_eq:
  assumes N: "N \<le> unat vector_max_size" and K: "0 < K" "K < 2 ^ 31" and t: "t < K"
    and C: "C = ceil_div N K"
  shows "chunk_range (of_nat C) (of_nat N) t = {t * C ..< min (t * C + C) N}"
proof -
  obtain start end' where cb: "chunk_bounds (of_nat C) (of_nat N) t = (start, end')"
    by (cases "chunk_bounds (of_nat C) (of_nat N) t")
  with chunk_bounds_unat(1,2) [OF N K t C]
  have "unat start = t * C" "unat end' = min (t * C + C) N" by simp_all
  then show ?thesis using cb by (simp add: chunk_range_def)
qed

lemma in_chunk_range_iff:
  assumes N: "N \<le> unat vector_max_size" and K: "0 < K" "K < 2 ^ 31" and t: "t < K"
    and C: "C = ceil_div N K"
  shows "(i \<in> chunk_range (of_nat C) (of_nat N) t) = (i < N \<and> i div C = t)"
proof (cases "i < N")
  case False
  then show ?thesis unfolding chunk_range_eq [OF N K t C] by simp
next
  case True
  then have "0 < N" by simp
  then have "0 < C" unfolding C using K(1) by (intro ceil_div_pos)
  then have "(t * C \<le> i \<and> i < t * C + C) = (i div C = t)" by (rule in_chunk_iff)
  then show ?thesis unfolding chunk_range_eq [OF N K t C] using True by auto
qed

lemma chunk_ranges_cover:
  assumes N: "N \<le> unat vector_max_size" and K: "0 < K" "K < 2 ^ 31"
    and C: "C = ceil_div N K"
  shows "(\<Union>t<K. chunk_range (of_nat C) (of_nat N) t) = {..<N}"
proof (rule set_eqI)
  fix i
  have "N \<le> K * C" unfolding C using K(1) by (intro ceil_div_lower)
  then have q: "i div C < K" if "i < N" using that by (intro less_mult_imp_div_less) simp
  have "(i \<in> (\<Union>t<K. chunk_range (of_nat C) (of_nat N) t))
          = (\<exists>t<K. i \<in> chunk_range (of_nat C) (of_nat N) t)" by auto
  also have "\<dots> = (\<exists>t<K. i < N \<and> i div C = t)"
    by (simp only: in_chunk_range_iff [OF N K _ C] cong: conj_cong)
  also have "\<dots> = (i < N)" using q by auto
  finally show "(i \<in> (\<Union>t<K. chunk_range (of_nat C) (of_nat N) t)) = (i \<in> {..<N})" by simp
qed

lemma chunk_ranges_disjoint:
  assumes N: "N \<le> unat vector_max_size" and K: "0 < K" "K < 2 ^ 31"
    and C: "C = ceil_div N K" and t: "t < K" and u: "u < K" and tu: "t \<noteq> u"
  shows "chunk_range (of_nat C) (of_nat N) t \<inter> chunk_range (of_nat C) (of_nat N) u = {}"
proof -
  have False
    if a: "i \<in> chunk_range (of_nat C) (of_nat N) t"
      and b: "i \<in> chunk_range (of_nat C) (of_nat N) u" for i
  proof -
    from a have "i div C = t" by (simp only: in_chunk_range_iff [OF N K t C])
    moreover from b have "i div C = u" by (simp only: in_chunk_range_iff [OF N K u C])
    ultimately show False using tu by simp
  qed
  then show ?thesis by blast
qed

lemma unat_chunk_size:
  assumes N: "N \<le> unat vector_max_size" and K: "0 < K" "K < 2 ^ 31"
  shows "unat (of_nat (ceil_div N K) :: size_t) = ceil_div N K"
proof -
  have "N < 2 ^ 63" using N by (simp add: vector_max_size_nat)
  moreover have "ceil_div N K \<le> N + K - 1"
    by (simp add: ceil_div_def)
  ultimately have "ceil_div N K < 2 ^ 64" using K by simp
  then show ?thesis by (rule unat_of_nat64)
qed

section \<open>The random data and its prefix sums\<close>

lemma unat_succ_less:
  fixes i s :: size_t
  assumes "i < s"
  shows "unat (i + 1) = Suc (unat i)"
proof -
  from assms have "i \<noteq> - 1" by (metis word_order.extremum_strict)
  then have "1 + i \<noteq> 0" by (simp add: add_eq_0_iff)
  then have "unat (1 + i) = Suc (unat i)" by (rule unatSuc)
  then show ?thesis by (simp only: add.commute)
qed

lemma fill_random_effect:
  "(\<And>g. 1 \<le> sint (fst (dis 1 100 g)) \<and> sint (fst (dis 1 100 g)) \<le> 100) \<Longrightarrow>
   unat size' \<le> length data \<Longrightarrow>
   \<exists>data'. fill_random dis i size' gen data = Inr data' \<and> length data' = length data \<and>
     (\<forall>j<length data.
        if unat i \<le> j \<and> j < unat size'
        then 1 \<le> sint (data' ! j) \<and> sint (data' ! j) \<le> 100
        else data' ! j = data ! j)"
proof (induction dis i size' gen data rule: fill_random.induct)
  case (1 dis i size' gen data)
  show ?case
  proof (cases "i < size'")
    case False
    then have "fill_random dis i size' gen data = Inr data"
      by (subst fill_random.simps) simp
    moreover from False have "unat size' \<le> unat i" by (simp add: word_less_nat_alt)
    then have "\<not> (unat i \<le> j \<and> j < unat size')" for j by simp
    ultimately show ?thesis by auto
  next
    case True
    obtain v gen' where d: "dis 1 100 gen = (v, gen')" by (cases "dis 1 100 gen")
    from "1.prems"(1) [of gen] d have v: "1 \<le> sint v" "sint v \<le> 100" by simp_all
    from True have lt: "unat i < unat size'" by (simp add: word_less_nat_alt)
    with "1.prems"(2) have il: "unat i < length data" by simp
    let ?data1 = "data[unat i := v]"
    have step: "fill_random dis i size' gen data = fill_random dis (i + 1) size' gen' ?data1"
      using True d il by (subst fill_random.simps) (simp add: vec_set_Inr)
    have len1: "unat size' \<le> length ?data1" using "1.prems"(2) by simp
    from "1.IH" [OF True d [symmetric] "1.prems"(1) len1]
    obtain data' where r:
      "fill_random dis (i + 1) size' gen' ?data1 = Inr data'"
      "length data' = length ?data1"
      "\<And>j. j < length ?data1 \<Longrightarrow>
         (if unat (i + 1) \<le> j \<and> j < unat size'
          then 1 \<le> sint (data' ! j) \<and> sint (data' ! j) \<le> 100
          else data' ! j = ?data1 ! j)"
      by blast
    have su: "unat (i + 1) = Suc (unat i)" using True by (rule unat_succ_less)
    have "if unat i \<le> j \<and> j < unat size'
          then 1 \<le> sint (data' ! j) \<and> sint (data' ! j) \<le> 100
          else data' ! j = data ! j"
      if j: "j < length data" for j
    proof -
      from j have j1: "j < length ?data1" by simp
      consider "j < unat i" | "j = unat i" | "unat i < j" by linarith
      then show ?thesis
      proof cases
        case 1
        then show ?thesis using r(3) [OF j1] su by simp
      next
        case 2
        then have "data' ! j = v" using r(3) [OF j1] su il by simp
        then show ?thesis using 2 lt v by simp
      next
        case 3
        then show ?thesis using r(3) [OF j1] su by simp
      qed
    qed
    with step r(1,2) show ?thesis by simp
  qed
qed

lemma generateRandomData_effect:
  assumes draw: "\<And>g. 1 \<le> sint (fst (dis 1 100 g)) \<and> sint (fst (dis 1 100 g)) \<le> 100"
  shows "\<exists>data. generateRandomData dis gen size' = Inr data \<and> length data = unat size' \<and>
           (\<forall>x\<in>set data. 1 \<le> sint x \<and> sint x \<le> 100)"
proof -
  let ?d0 = "replicate (unat size') (0::cint)"
  have "unat size' \<le> length ?d0" by simp
  from fill_random_effect [of dis size' ?d0 0 gen, OF draw this]
  obtain data where r: "fill_random dis 0 size' gen ?d0 = Inr data"
    "length data = unat size'"
    "\<And>j. j < unat size' \<Longrightarrow> 1 \<le> sint (data ! j) \<and> sint (data ! j) \<le> 100"
    by auto
  have "generateRandomData dis gen size' = Inr data"
    using r(1) by (simp add: generateRandomData_def vec_new_def)
  moreover have "\<forall>x\<in>set data. 1 \<le> sint x \<and> sint x \<le> 100"
    using r(2,3) by (auto simp: in_set_conv_nth)
  ultimately show ?thesis using r(2) by blast
qed

lemma sint_sum_list:
  fixes ws :: "cint list"
  assumes "\<forall>w\<in>set ws. 0 \<le> sint w \<and> sint w \<le> 100" and "100 * int (length ws) < 2 ^ 31"
  shows "sint (sum_list ws) = sum_list (map sint ws)
         \<and> 0 \<le> sum_list (map sint ws) \<and> sum_list (map sint ws) \<le> 100 * int (length ws)"
  using assms
proof (induction ws)
  case Nil
  then show ?case by simp
next
  case (Cons w ws)
  from Cons.prems have w: "0 \<le> sint w" "sint w \<le> 100"
    and rest: "\<forall>w\<in>set ws. 0 \<le> sint w \<and> sint w \<le> 100"
    and len: "100 * int (length ws) + 100 < 2 ^ 31" by simp_all
  from len have "100 * int (length ws) < 2 ^ 31" by simp
  from Cons.IH [OF rest this] have ih: "sint (sum_list ws) = sum_list (map sint ws)"
    "0 \<le> sum_list (map sint ws)" "sum_list (map sint ws) \<le> 100 * int (length ws)"
    by simp_all
  let ?s = "sint w + sum_list (map sint ws)"
  have lo: "- (2 ^ 31) \<le> ?s" using w(1) ih(2) by simp
  have hi: "?s < 2 ^ 31" using w(2) ih(3) len by simp
  have "sint (w + sum_list ws) = signed_take_bit (LENGTH(32) - 1) (sint w + sint (sum_list ws))"
    by (rule sint_word_ariths(1))
  also have "\<dots> = signed_take_bit 31 ?s" by (simp only: ih(1)) simp
  also have "\<dots> = ?s" using lo hi by (rule signed_take_bit_int_eq_self)
  finally have "sint (sum_list (w # ws)) = sum_list (map sint (w # ws))" by simp
  moreover have "0 \<le> sum_list (map sint (w # ws))" using w(1) ih(2) by simp
  moreover have "sum_list (map sint (w # ws)) \<le> 100 * int (length (w # ws))"
    using w(2) ih(3) by simp
  ultimately show ?case by blast
qed

lemma prefix_sums_fit:
  fixes data :: "cint list"
  assumes el: "\<forall>x\<in>set data. 1 \<le> sint x \<and> sint x \<le> 100"
    and len: "length data \<le> 10000000" and i: "i < length data"
  shows "sint (inclusive_scan data ! i) = sum_list (map sint (take (Suc i) data))
         \<and> sum_list (map sint (take (Suc i) data)) \<le> 1000000000"
proof -
  let ?ws = "take (Suc i) data"
  have l: "length ?ws = Suc i" using i by simp
  have "\<forall>w\<in>set ?ws. 0 \<le> sint w \<and> sint w \<le> 100"
    using el by (auto dest!: in_set_takeD)
  moreover have b: "100 * int (length ?ws) \<le> 1000000000" using l i len by simp
  then have "100 * int (length ?ws) < 2 ^ 31" by simp
  ultimately have "sint (sum_list ?ws) = sum_list (map sint ?ws)"
    "sum_list (map sint ?ws) \<le> 100 * int (length ?ws)"
    using sint_sum_list [of ?ws] by simp_all
  then show ?thesis using b inclusive_scan_nth [OF i] by simp
qed

section \<open>The sweep over the thread counts\<close>

lemma sint_small:
  fixes w :: cuint
  assumes "unat w < 2 ^ 31"
  shows "sint w = int (unat w)"
proof -
  have u: "int (unat w) = uint w" by simp
  from assms have "int (unat w) < int (2 ^ 31)" by (simp only: of_nat_less_iff)
  then have hi: "uint w < 2 ^ 31" by simp
  have lo: "- (2 ^ 31) \<le> uint w" by (rule order_trans [of _ 0]) simp_all
  have "sint w = signed_take_bit (LENGTH(32) - Suc 0) (uint w)" by (rule sint_uint)
  also have "\<dots> = signed_take_bit 31 (uint w)" by simp
  also have "\<dots> = uint w" using lo hi by (rule signed_take_bit_int_eq_self)
  finally show ?thesis using u by simp
qed

lemma maxK_of_eq:
  assumes "unat hwThreads < 2 ^ 29"
  shows "maxK_of hwThreads = Inr (min 32 (4 * int (unat hwThreads)))"
proof -
  from assms have "unat hwThreads < 2 ^ 31" by simp
  then have "sint hwThreads = int (unat hwThreads)" by (rule sint_small)
  moreover from assms have "int (unat hwThreads) < int (2 ^ 29)"
    by (simp only: of_nat_less_iff)
  then have "uint hwThreads < 2 ^ 29" by simp
  then have "uint hwThreads * 4 < 2 ^ 31" by simp
  moreover have "- (2 ^ 31) \<le> uint hwThreads * 4"
    by (rule order_trans [of _ 0]) simp_all
  ultimately show ?thesis
    by (simp add: maxK_of_def Let_def mult.commute)
qed

lemma measured_scan:
  fixes data :: "'a::comm_monoid_add list"
  assumes "length data \<le> unat vector_max_size"
  shows "measureTime now c (parallelInclusiveScan data T)
           = Inr (now (c + 1) - now c, inclusive_scan data, c + 2)"
  using scan_correct [OF assms, of T] by (simp add: measureTime_def)

lemma sweep_step:
  assumes inv: "sweep_inv now k st" and fin: "\<And>c. now (Suc c) - now c \<le> DBL_MAX"
    and t: "t = now (clock st + 1) - now (clock st)"
    and st1: "st1 = st\<lparr>results := results st @ [(k, t)], clock := clock st + 2\<rparr>"
    and st2: "st2 = (if t < bestTime st1 then st1\<lparr>bestTime := t, bestK := k\<rparr> else st1)"
  shows "sweep_inv now (k + 1) st2"
proof -
  let ?f = "\<lambda>j. (j, sweep_time now j)"
  from inv have k: "1 \<le> k" and res: "results st = map ?f [1..k - 1]"
    and clk: "clock st = nat (2 * k)"
    and first: "k = 1 \<Longrightarrow> bestK st = 1 \<and> bestTime st = DBL_MAX"
    and best: "1 < k \<Longrightarrow> (bestK st, bestTime st) \<in> set (results st)"
    and least: "\<And>j u. 1 < k \<Longrightarrow> (j, u) \<in> set (results st)
                  \<Longrightarrow> bestTime st \<le> u \<and> (u = bestTime st \<longrightarrow> bestK st \<le> j)"
    by (auto simp: sweep_inv_def)
  have tk: "t = sweep_time now k" unfolding t clk by (simp add: sweep_time_def)
  have tfin: "t \<le> DBL_MAX" unfolding t using fin [of "clock st"] by simp
  have "[1..k] = [1..k - 1] @ [k]" using k by (rule upto_rec2)
  then have res2: "results st2 = map ?f [1..k + 1 - 1]"
    unfolding st2 st1 using res tk by simp
  have clk2: "clock st2 = nat (2 * (k + 1))"
    unfolding st2 st1 using clk k by (simp add: nat_add_distrib)
  have rs2: "results st2 = results st @ [(k, t)]" unfolding st2 st1 by simp
  have older: "j < k" if "(j, u) \<in> set (results st)" for j u
    using that unfolding res by auto
  have bt1: "bestTime st1 = bestTime st" and bk1: "bestK st1 = bestK st"
    unfolding st1 by simp_all
  have b2: "(bestK st2, bestTime st2) \<in> set (results st2)
            \<and> (\<forall>(j, u)\<in>set (results st2).
                  bestTime st2 \<le> u \<and> (u = bestTime st2 \<longrightarrow> bestK st2 \<le> j))"
  proof (cases "t < bestTime st")
    case True
    then have s: "bestTime st2 = t" "bestK st2 = k" unfolding st2 using bt1 by simp_all
    have "t \<le> u \<and> (u = t \<longrightarrow> k \<le> j)" if m: "(j, u) \<in> set (results st)" for j u
    proof -
      from m have "results st \<noteq> []" by auto
      then have "1 < k" using res k by (cases "k = 1") auto
      from least [OF this m] True show ?thesis by simp
    qed
    then show ?thesis unfolding s rs2 by auto
  next
    case False
    then have s: "bestTime st2 = bestTime st" "bestK st2 = bestK st"
      unfolding st2 using bt1 bk1 by simp_all
    show ?thesis
    proof (cases "k = 1")
      case True
      with first have f: "bestK st = 1" "bestTime st = DBL_MAX" by simp_all
      with False tfin have "t = DBL_MAX" by simp
      moreover from True res have "results st = []" by simp
      ultimately show ?thesis unfolding s rs2 using f True by simp
    next
      case ne: False
      with k have k1: "1 < k" by simp
      from best [OF k1] have "bestK st < k" by (rule older)
      then show ?thesis unfolding s rs2 using best [OF k1] least [OF k1] False by auto
    qed
  qed
  show ?thesis
    unfolding sweep_inv_def using k res2 clk2 b2 by simp
qed

lemma sweep_loop_result:
  "length data \<le> unat vector_max_size \<Longrightarrow> (\<And>c. now (Suc c) - now c \<le> DBL_MAX) \<Longrightarrow>
   sweep_inv now k st \<Longrightarrow> k \<le> maxK + 1 \<Longrightarrow>
   \<exists>st'. sweep_loop now data maxK k st = Inr st' \<and> sweep_inv now (maxK + 1) st'"
proof (induction now data maxK k st rule: sweep_loop.induct)
  case (1 now data maxK k st)
  note N = "1.prems"(1) and fin = "1.prems"(2) and inv = "1.prems"(3) and le = "1.prems"(4)
  show ?case
  proof (cases "k \<le> maxK")
    case False
    with le have "k = maxK + 1" by simp
    moreover from False have "sweep_loop now data maxK k st = Inr st"
      by (subst sweep_loop.simps) simp
    ultimately show ?thesis using inv by simp
  next
    case True
    define t where "t = now (clock st + 1) - now (clock st)"
    define st1 where "st1 = st\<lparr>results := results st @ [(k, t)], clock := clock st + 2\<rparr>"
    define st2 where "st2 = (if t < bestTime st1 then st1\<lparr>bestTime := t, bestK := k\<rparr> else st1)"
    have step: "sweep_loop now data maxK k st = sweep_loop now data maxK (k + 1) st2"
      using True measured_scan [OF N, of now "clock st" "of_int k"]
      by (subst sweep_loop.simps) (simp add: Let_def t_def st1_def st2_def)
    have inv2: "sweep_inv now (k + 1) st2"
      using inv fin t_def st1_def st2_def by (rule sweep_step)
    from True have "k + 1 \<le> maxK + 1" by simp
    from "1.IH" [OF True st1_def st2_def N fin inv2 this] step show ?thesis by simp
  qed
qed

lemma baseline_measured:
  fixes data :: "cint list"
  assumes N: "length data \<le> unat vector_max_size"
  shows "vec_new (of_nat (length data)) = replicate (length data) (0::cint)"
    and "measureTime now 0
           (inclusive_scan_into data 0 (length data) (replicate (length data) 0) 0)
         = Inr (now 1 - now 0, inclusive_scan data, 2)"
proof -
  have "length data < 2 ^ 63" using N by (simp add: vector_max_size_nat)
  then show "vec_new (of_nat (length data)) = replicate (length data) (0::cint)"
    by (intro vec_new_of_nat) simp
  show "measureTime now 0
          (inclusive_scan_into data 0 (length data) (replicate (length data) 0) 0)
        = Inr (now 1 - now 0, inclusive_scan data, 2)"
    by (simp add: fallback_scan measureTime_def)
qed

lemma sweep_inv_initial:
  "sweep_inv now 1 \<lparr>results = [], bestK = 1, bestTime = DBL_MAX, clock = 2\<rparr>"
  by (simp add: sweep_inv_def)

lemma empty_sweep: "maxK < 1 \<Longrightarrow> sweep_loop now data maxK 1 st = Inr st"
  by (subst sweep_loop.simps) simp

section \<open>The claims\<close>

subsection \<open>C1\<close>

text \<open>
  Claim C1. For every input that fits in a vector and every thread count \<open>T \<ge> 1\<close>,
  however large compared with the length of the input, \<^verbatim>\<open>parallelInclusiveScan\<close>
  returns the sequence that the sequential \<^verbatim>\<open>std::inclusive_scan\<close> returns, whose
  element \<open>i\<close> is \<open>input[0] + \<dots> + input[i]\<close>. The same holds in whatever order the
  threads of a phase run. In particular the results for \<open>T = 1\<close>, for \<open>T = 1000\<close> and
  of the sequential baseline are equal.
\<close>

theorem parallelInclusiveScan_equals_sequential:
  fixes input :: "'a::comm_monoid_add list"
  assumes "length input \<le> unat vector_max_size" and "1 \<le>s T"
    and "set order1 = set (phase1_threads T)" and "distinct order1"
    and "set order3 = set (phase3_threads T)" and "distinct order3"
  shows "parallelInclusiveScan input T = Inr (inclusive_scan input)
       \<and> (\<exists>spawned. parallelInclusiveScan_in order1 order3 input T
                        = Inr (inclusive_scan input, spawned))
       \<and> length (inclusive_scan input) = length input
       \<and> (\<forall>i<length input. inclusive_scan input ! i = sum_list (take (Suc i) input))
       \<and> parallelInclusiveScan input 1 = Inr (inclusive_scan input)
       \<and> parallelInclusiveScan input 1000 = Inr (inclusive_scan input)"
proof -
  have o1: "set order1 = {..<nat (sint T)}" and o3: "set order3 = {1..<nat (sint T)}"
    using assms(3,5) by (simp_all add: spawn_orders)
  have "\<exists>spawned. parallelInclusiveScan_in order1 order3 input T
                     = Inr (inclusive_scan input, spawned)"
  proof (cases "sint T \<le> 1 \<or> length input < 1000")
    case True
    from scan_in_fallback [OF assms(1) True] show ?thesis by blast
  next
    case False
    then have g: "1 < sint T" "1000 \<le> length input" by simp_all
    from scan_in_parallel [OF assms(1) g o1 assms(4) o3 assms(6)] show ?thesis by blast
  qed
  moreover have "\<forall>i<length input. inclusive_scan input ! i = sum_list (take (Suc i) input)"
    by (simp add: inclusive_scan_nth)
  ultimately show ?thesis
    using scan_correct [OF assms(1)] by (simp add: length_inclusive_scan)
qed

theorem parallelInclusiveScan_equals_sequential_witness:
  "length (replicate 1000 (1::int)) \<le> unat vector_max_size \<and> (1::cint) \<le>s 3
   \<and> set [2, 0, 1] = set (phase1_threads 3) \<and> distinct [2, 0, 1::nat]
   \<and> set [2, 1] = set (phase3_threads 3) \<and> distinct [2, 1::nat]
   \<and> parallelInclusiveScan (replicate 1000 (1::int)) 3 = Inr (inclusive_scan (replicate 1000 1))
   \<and> (\<exists>spawned. parallelInclusiveScan_in [2, 0, 1] [2, 1] (replicate 1000 (1::int)) 3
                    = Inr (inclusive_scan (replicate 1000 1), spawned))
   \<and> parallelInclusiveScan (replicate 1000 (1::int)) 1000 = Inr (inclusive_scan (replicate 1000 1))"
proof -
  have h1: "length (replicate 1000 (1::int)) \<le> unat vector_max_size"
    by (simp add: vector_max_size_def)
  have h2: "(1::cint) \<le>s 3" by (simp add: word_sle_eq)
  have h3: "set [2, 0, 1] = set (phase1_threads 3)"
    by (auto simp: phase1_threads_def)
  have h4: "distinct [2, 0, 1::nat]" by simp
  have h5: "set [2, 1] = set (phase3_threads 3)"
    by (auto simp: phase3_threads_def)
  have h6: "distinct [2, 1::nat]" by simp
  from parallelInclusiveScan_equals_sequential [OF h1 h2 h3 h4 h5 h6] h1 h2 h3 h4 h5 h6
  show ?thesis by blast
qed

subsection \<open>C2\<close>

text \<open>
  Claim C2. When the thread count is at most 1, zero and negative counts included, or the
  input has fewer than 1000 elements, \<^verbatim>\<open>parallelInclusiveScan\<close> returns the result of
  the sequential scan and creates no thread. The chunk size is then not computed: with a
  thread count of 0 its computation would divide by zero, and the call still returns.
\<close>

theorem fallback_when_few_threads_or_small_input:
  fixes input :: "'a::{plus,zero} list"
  assumes "length input \<le> unat vector_max_size"
    and "T \<le>s 1 \<or> length input < 1000"
  shows "parallelInclusiveScan_run input T = Inr (inclusive_scan input, 0)
       \<and> parallelInclusiveScan_in order1 order3 input T = Inr (inclusive_scan input, 0)
       \<and> parallelInclusiveScan input T = Inr (inclusive_scan input)
       \<and> chunkSize_of (of_nat (length input)) 0 = Inl DivisionByZero
       \<and> parallelInclusiveScan input 0 = Inr (inclusive_scan input)"
proof -
  from assms(2) have g: "sint T \<le> 1 \<or> length input < 1000" by (simp add: word_sle_eq)
  have g0: "sint (0::cint) \<le> 1 \<or> length input < 1000" by simp
  have run: "parallelInclusiveScan_run input U = Inr (inclusive_scan input, 0)"
    if "sint U \<le> 1 \<or> length input < 1000" for U
    using scan_in_fallback [OF assms(1) that] by (simp add: parallelInclusiveScan_run_def)
  have "chunkSize_of (of_nat (length input)) 0 = Inl DivisionByZero"
    by (simp add: chunkSize_of_def)
  then show ?thesis
    using run [OF g] run [OF g0] scan_in_fallback [OF assms(1) g, of order1 order3]
    by (simp add: parallelInclusiveScan_def)
qed

theorem fallback_when_few_threads_or_small_input_witness:
  "length [5, 7, 11::int] \<le> unat vector_max_size
   \<and> ((- 4 :: cint) \<le>s 1 \<or> length [5, 7, 11::int] < 1000)
   \<and> parallelInclusiveScan_run [5, 7, 11::int] (- 4) = Inr (inclusive_scan [5, 7, 11], 0)
   \<and> parallelInclusiveScan [5, 7, 11::int] (- 4) = Inr [5, 12, 23]
   \<and> parallelInclusiveScan [5, 7, 11::int] 0 = Inr [5, 12, 23]"
proof -
  have h1: "length [5, 7, 11::int] \<le> unat vector_max_size"
    by (simp add: vector_max_size_def)
  have h2: "(- 4 :: cint) \<le>s 1 \<or> length [5, 7, 11::int] < 1000" by simp
  from fallback_when_few_threads_or_small_input [OF h1 h2] h1 h2
  show ?thesis by simp
qed

subsection \<open>C3\<close>

text \<open>
  Claim C3. In the parallel phases, for every thread count and in particular for one
  larger than the length \<open>n\<close> of the input, a chunk whose start \<open>t * chunkSize\<close> is at or
  beyond \<open>n\<close> does no work, and its slot \<open>lastValues[t]\<close> still holds the zero it was
  created with. The scan of the carries is therefore not disturbed: \<open>prefixSums[t]\<close> is
  the sum of the input up to the end of chunk \<open>t\<close>, which is the sum of the whole input at
  an empty chunk, and the phases return the sequential scan. For the input \<open>[a, b, c]\<close>
  and 10 threads both the phases and \<^verbatim>\<open>parallelInclusiveScan\<close> return
  \<open>[a, a + b, a + b + c]\<close>.
\<close>

theorem empty_chunks_leave_zero_carries:
  fixes input :: "'a::comm_monoid_add list"
  assumes "length input \<le> unat vector_max_size" and "1 < sint T"
  shows "\<exists>chunkSize result1 lastValues prefixSums.
           chunkSize_of (of_nat (length input)) T = Inr chunkSize
         \<and> phase1 (phase1_threads T) input chunkSize (of_nat (length input)) T
               (replicate (length input) 0) = Inr (result1, lastValues)
         \<and> phase2 lastValues T = Inr prefixSums
         \<and> (\<forall>t<nat (sint T).
               of_nat (length input) \<le> fst (chunk_bounds chunkSize (of_nat (length input)) t) \<longrightarrow>
               (\<forall>st. scan_chunk input chunkSize (of_nat (length input)) t st = Inr st)
             \<and> lastValues ! t = 0
             \<and> prefixSums ! t = sum_list input)
         \<and> (\<forall>t<nat (sint T).
               prefixSums ! t
                 = sum_list (take (min (t * unat chunkSize + unat chunkSize) (length input)) input))
         \<and> parallel_phases (phase1_threads T) (phase3_threads T) input (of_nat (length input)) T
               (replicate (length input) 0)
             = Inr (inclusive_scan input, nat (sint T) + (nat (sint T) - 1))
         \<and> parallel_phases (phase1_threads 10) (phase3_threads 10) [a, b, c :: 'a] 3 10 [0, 0, 0]
             = Inr ([a, a + b, a + b + c], 19)
         \<and> parallelInclusiveScan [a, b, c] 10 = Inr [a, a + b, a + b + c]"
proof -
  let ?N = "length input" and ?K = "nat (sint T)"
  define C where "C = ceil_div ?N ?K"
  let ?cs = "of_nat C :: size_t" and ?n = "of_nat ?N :: size_t"
  note N = assms(1)
  have K: "0 < ?K" "?K < 2 ^ 31" using assms(2) sint_bound32 [of T] by simp_all
  have uC: "unat ?cs = C" unfolding C_def using N K by (rule unat_chunk_size)
  from parallel_phases_trace [OF N assms(2) refl C_def spawn_orders]
  obtain r1 lv ps where tr:
    "chunkSize_of ?n T = Inr ?cs"
    "phase1 (phase1_threads T) input ?cs ?n T (replicate ?N 0) = Inr (r1, lv)"
    "phase2 lv T = Inr ps"
    "\<And>u. u < ?K \<Longrightarrow> lv ! u = chunk_sum input C u"
    "\<And>u. u < ?K \<Longrightarrow> ps ! u = range_sum input 0 (min (u * C + C) ?N)"
    by blast
  have empty: "(\<forall>st. scan_chunk input ?cs ?n t st = Inr st) \<and> lv ! t = 0
               \<and> ps ! t = sum_list input"
    if t: "t < ?K" and s: "?n \<le> fst (chunk_bounds ?cs ?n t)" for t
  proof -
    from s have le: "?N \<le> t * C" using chunk_bounds_unat(3) [OF N K t C_def] by simp
    then have "lv ! t = 0" using tr(4) [OF t] by (simp add: chunk_sum_empty)
    moreover from le have "min (t * C + C) ?N = ?N" by simp
    then have "ps ! t = sum_list input" using tr(5) [OF t] by (simp add: range_sum_prefix)
    ultimately show ?thesis using skipped_chunk(1) [OF s] by blast
  qed
  have pre: "ps ! t = sum_list (take (min (t * unat ?cs + unat ?cs) ?N) input)"
    if "t < ?K" for t
    unfolding uC using tr(5) [OF that] by (simp only: range_sum_prefix)
  have len: "length (phase1_threads T) + length (phase3_threads T) = ?K + (?K - 1)"
    by (simp add: phase1_threads_def phase3_threads_def)
  have run: "parallel_phases (phase1_threads T) (phase3_threads T) input ?n T (replicate ?N 0)
               = Inr (inclusive_scan input, ?K + (?K - 1))"
    using parallel_phases_correct [OF N assms(2) spawn_orders] len by simp
  have abc: "length [a, b, c] \<le> unat vector_max_size" by (simp add: vector_max_size_nat)
  have ten: "1 < sint (10::cint)" by simp
  have ex1: "parallel_phases (phase1_threads 10) (phase3_threads 10) [a, b, c] 3 10 [0, 0, 0]
               = Inr ([a, a + b, a + b + c], 19)"
    using parallel_phases_correct [OF abc ten spawn_orders]
    by (simp add: phase1_threads_def phase3_threads_def numeral_3_eq_3)
  have ex2: "parallelInclusiveScan [a, b, c] 10 = Inr [a, a + b, a + b + c]"
    using scan_correct [OF abc, of 10] by simp
  show ?thesis
  proof (rule exI [of _ ?cs], rule exI [of _ r1], rule exI [of _ lv], rule exI [of _ ps],
      intro conjI allI impI)
    show "chunkSize_of ?n T = Inr ?cs" by (rule tr(1))
    show "phase1 (phase1_threads T) input ?cs ?n T (replicate ?N 0) = Inr (r1, lv)"
      by (rule tr(2))
    show "phase2 lv T = Inr ps" by (rule tr(3))
    show "scan_chunk input ?cs ?n t st = Inr st"
      if "t < ?K" "?n \<le> fst (chunk_bounds ?cs ?n t)" for t st using empty that by blast
    show "lv ! t = 0"
      if "t < ?K" "?n \<le> fst (chunk_bounds ?cs ?n t)" for t using empty that by blast
    show "ps ! t = sum_list input"
      if "t < ?K" "?n \<le> fst (chunk_bounds ?cs ?n t)" for t using empty that by blast
    show "ps ! t = sum_list (take (min (t * unat ?cs + unat ?cs) ?N) input)"
      if "t < ?K" for t using that by (rule pre)
    show "parallel_phases (phase1_threads T) (phase3_threads T) input ?n T (replicate ?N 0)
            = Inr (inclusive_scan input, ?K + (?K - 1))" by (rule run)
    show "parallel_phases (phase1_threads 10) (phase3_threads 10) [a, b, c] 3 10 [0, 0, 0]
            = Inr ([a, a + b, a + b + c], 19)" by (rule ex1)
    show "parallelInclusiveScan [a, b, c] 10 = Inr [a, a + b, a + b + c]" by (rule ex2)
  qed
qed

theorem empty_chunks_leave_zero_carries_witness:
  "length [1, 2, 3::int] \<le> unat vector_max_size \<and> 1 < sint (10::cint)
   \<and> (\<exists>chunkSize result1 lastValues prefixSums.
          chunkSize_of 3 10 = Inr chunkSize
        \<and> phase1 (phase1_threads 10) [1, 2, 3::int] chunkSize 3 10 [0, 0, 0]
              = Inr (result1, lastValues)
        \<and> phase2 lastValues 10 = Inr prefixSums
        \<and> scan_chunk [1, 2, 3::int] chunkSize 3 5 (result1, lastValues)
              = Inr (result1, lastValues)
        \<and> lastValues ! 5 = 0 \<and> prefixSums ! 5 = 6 \<and> prefixSums ! 9 = 6)
   \<and> parallelInclusiveScan [1, 2, 3::int] 10 = Inr [1, 3, 6]"
proof -
  have h1: "length [1, 2, 3::int] \<le> unat vector_max_size"
    by (simp add: vector_max_size_def)
  have h2: "1 < sint (10::cint)" by simp
  from empty_chunks_leave_zero_carries
    [OF h1 h2, where a = "1::int" and b = 2 and c = 3]
  obtain cs r1 lv ps where w:
    "chunkSize_of 3 (10::cint) = Inr cs"
    "phase1 (phase1_threads 10) [1, 2, 3::int] cs 3 10 [0, 0, 0] = Inr (r1, lv)"
    "phase2 lv 10 = Inr ps"
    "\<And>t. t < 10 \<Longrightarrow> 3 \<le> fst (chunk_bounds cs 3 t) \<Longrightarrow>
        (\<forall>st. scan_chunk [1, 2, 3::int] cs 3 t st = Inr st) \<and> lv ! t = 0 \<and> ps ! t = 6"
    "parallelInclusiveScan [1, 2, 3::int] 10 = Inr [1, 3, 6]"
    by (auto simp: numeral_3_eq_3)
  from w(1) have cs: "cs = 1" by (simp add: chunkSize_of_def)
  have e5: "(3::size_t) \<le> fst (chunk_bounds cs 3 5)"
    and e9: "(3::size_t) \<le> fst (chunk_bounds cs 3 9)"
    unfolding cs by (simp_all add: chunk_bounds_def)
  from w(4) [OF _ e5] w(4) [OF _ e9]
  have "scan_chunk [1, 2, 3::int] cs 3 5 (r1, lv) = Inr (r1, lv)"
    "lv ! 5 = 0" "ps ! 5 = 6" "ps ! 9 = 6"
    by simp_all
  with w(1,2,3,5) h1 h2 show ?thesis by blast
qed

subsection \<open>C4\<close>

text \<open>
  Claim C4. For every thread count, the scan of the empty sequence is the empty sequence
  and the scan of \<open>[x]\<close> is \<open>[x]\<close>; both calls return without an error (so without a
  division by zero) and create no thread.
\<close>

theorem scan_of_empty_and_singleton:
  fixes x :: "'a::{plus,zero}"
  shows "parallelInclusiveScan_run ([] :: 'a list) T = Inr ([], 0)
       \<and> parallelInclusiveScan ([] :: 'a list) T = Inr []
       \<and> parallelInclusiveScan_run [x] T = Inr ([x], 0)
       \<and> parallelInclusiveScan [x] T = Inr [x]"
proof -
  have e: "length ([] :: 'a list) \<le> unat vector_max_size" "sint T \<le> 1 \<or> length ([] :: 'a list) < 1000"
    and s: "length [x] \<le> unat vector_max_size" "sint T \<le> 1 \<or> length [x] < 1000"
    by (simp_all add: vector_max_size_nat)
  from scan_in_fallback [OF e] scan_in_fallback [OF s] show ?thesis
    by (simp add: parallelInclusiveScan_run_def parallelInclusiveScan_def)
qed

subsection \<open>C5\<close>

text \<open>
  Claim C5. In the parallel path the chunk size is \<open>n / T\<close> rounded up, and the bounds that
  the code computes for the chunks \<open>t = 0, \<dots>, T - 1\<close> are \<open>t * chunkSize\<close> and
  \<open>min (t * chunkSize + chunkSize) n\<close>. The chunks are pairwise disjoint and their union
  is \<open>[0, n)\<close>. No chunk is longer than \<open>chunkSize\<close>; a chunk that is followed by a
  non-empty chunk has exactly this length and ends where the next one starts, so only the
  last non-empty chunk can be shorter. A chunk that starts at or beyond \<open>n\<close> is empty,
  and both thread bodies return at once for it.
\<close>

theorem chunks_partition_the_input:
  fixes input :: "'a::plus list"
  assumes "length input \<le> unat vector_max_size" and "1 < sint T"
  shows "\<exists>chunkSize.
           chunkSize_of (of_nat (length input)) T = Inr chunkSize
         \<and> int (unat chunkSize) = \<lceil>real (length input) / real_of_int (sint T)\<rceil>
         \<and> (\<forall>t<nat (sint T).
               chunk_range chunkSize (of_nat (length input)) t
                 = {t * unat chunkSize ..< min (t * unat chunkSize + unat chunkSize) (length input)})
         \<and> (\<forall>t<nat (sint T). \<forall>u<nat (sint T). t \<noteq> u \<longrightarrow>
               chunk_range chunkSize (of_nat (length input)) t
                 \<inter> chunk_range chunkSize (of_nat (length input)) u = {})
         \<and> (\<Union>t<nat (sint T). chunk_range chunkSize (of_nat (length input)) t)
               = {..<length input}
         \<and> (\<forall>t<nat (sint T).
               card (chunk_range chunkSize (of_nat (length input)) t) \<le> unat chunkSize)
         \<and> (\<forall>t. Suc t < nat (sint T)
                  \<and> chunk_range chunkSize (of_nat (length input)) (Suc t) \<noteq> {} \<longrightarrow>
               card (chunk_range chunkSize (of_nat (length input)) t) = unat chunkSize
             \<and> snd (chunk_bounds chunkSize (of_nat (length input)) t)
                 = fst (chunk_bounds chunkSize (of_nat (length input)) (Suc t)))
         \<and> (\<forall>t<nat (sint T).
               of_nat (length input) \<le> fst (chunk_bounds chunkSize (of_nat (length input)) t) \<longrightarrow>
               chunk_range chunkSize (of_nat (length input)) t = {}
             \<and> (\<forall>st. scan_chunk input chunkSize (of_nat (length input)) t st = Inr st)
             \<and> (\<forall>prefixSums result.
                   add_offset chunkSize (of_nat (length input)) prefixSums t result
                     = Inr (result :: 'a list)))"
proof -
  let ?N = "length input" and ?K = "nat (sint T)"
  define C where "C = ceil_div ?N ?K"
  let ?cs = "of_nat C :: size_t" and ?n = "of_nat ?N :: size_t"
  note N = assms(1)
  have K: "0 < ?K" "?K < 2 ^ 31" using assms(2) sint_bound32 [of T] by simp_all
  have uC: "unat ?cs = C" unfolding C_def using N K by (rule unat_chunk_size)
  have cs: "chunkSize_of ?n T = Inr ?cs"
    unfolding C_def using N assms(2) by (rule chunkSize_of_eq)
  have ceil: "int (unat ?cs) = \<lceil>real ?N / real_of_int (sint T)\<rceil>"
  proof -
    have "int (unat ?cs) = int C" by (simp only: uC)
    also have "\<dots> = \<lceil>real ?N / real ?K\<rceil>"
      unfolding C_def using K(1) by (rule ceil_div_ceiling)
    also have "real ?K = real_of_int (int ?K)" by (simp only: of_int_of_nat_eq)
    also have "int ?K = sint T" using assms(2) by (simp only: nat_0_le less_imp_le order_trans [OF zero_le_one])
    finally show ?thesis .
  qed
  have rng: "chunk_range ?cs ?n t = {t * C ..< min (t * C + C) ?N}" if "t < ?K" for t
    using N K that C_def by (rule chunk_range_eq)
  have disj: "chunk_range ?cs ?n t \<inter> chunk_range ?cs ?n u = {}"
    if "t < ?K" "u < ?K" "t \<noteq> u" for t u
    using N K C_def that by (rule chunk_ranges_disjoint)
  have cover: "(\<Union>t<?K. chunk_range ?cs ?n t) = {..<?N}"
    using N K C_def by (rule chunk_ranges_cover)
  have card_le: "card (chunk_range ?cs ?n t) \<le> C" if "t < ?K" for t
    unfolding rng [OF that] by simp
  have contig: "card (chunk_range ?cs ?n t) = C
                \<and> snd (chunk_bounds ?cs ?n t) = fst (chunk_bounds ?cs ?n (Suc t))"
    if t: "Suc t < ?K" and ne: "chunk_range ?cs ?n (Suc t) \<noteq> {}" for t
  proof -
    from t have t': "t < ?K" by simp
    from ne have "Suc t * C < ?N" unfolding rng [OF t] by simp
    then have le: "t * C + C \<le> ?N" by simp
    then have m: "min (t * C + C) ?N = t * C + C" by (rule min_absorb1)
    have "card (chunk_range ?cs ?n t) = C" unfolding rng [OF t'] m by simp
    moreover have "chunk_bounds ?cs ?n t = (of_nat (t * C), of_nat (min (t * C + C) ?N))"
      unfolding C_def using N K t' by (rule chunk_bounds_eq)
    moreover have "chunk_bounds ?cs ?n (Suc t)
                     = (of_nat (Suc t * C), of_nat (min (Suc t * C + C) ?N))"
      unfolding C_def using N K t by (rule chunk_bounds_eq)
    moreover have "Suc t * C = t * C + C" by simp
    ultimately show ?thesis unfolding m by (simp only: fst_conv snd_conv)
  qed
  have skip: "chunk_range ?cs ?n t = {}
              \<and> (\<forall>st. scan_chunk input ?cs ?n t st = Inr st)
              \<and> (\<forall>prefixSums result. add_offset ?cs ?n prefixSums t result = Inr (result :: 'a list))"
    if t: "t < ?K" and s: "?n \<le> fst (chunk_bounds ?cs ?n t)" for t
  proof -
    from s have "?N \<le> t * C" using chunk_bounds_unat(3) [OF N K t C_def] by simp
    then have "chunk_range ?cs ?n t = {}" unfolding rng [OF t] by simp
    then show ?thesis using skipped_chunk [OF s] by blast
  qed
  show ?thesis
  proof (intro exI [of _ ?cs] conjI allI impI)
    show "chunkSize_of ?n T = Inr ?cs" by (rule cs)
    show "int (unat ?cs) = \<lceil>real ?N / real_of_int (sint T)\<rceil>" by (rule ceil)
    show "chunk_range ?cs ?n t = {t * unat ?cs ..< min (t * unat ?cs + unat ?cs) ?N}"
      if "t < ?K" for t unfolding uC using that by (rule rng)
    show "chunk_range ?cs ?n t \<inter> chunk_range ?cs ?n u = {}"
      if "t < ?K" "u < ?K" "t \<noteq> u" for t u using that by (rule disj)
    show "(\<Union>t<?K. chunk_range ?cs ?n t) = {..<?N}" by (rule cover)
    show "card (chunk_range ?cs ?n t) \<le> unat ?cs" if "t < ?K" for t
      unfolding uC using that by (rule card_le)
    show "card (chunk_range ?cs ?n t) = unat ?cs"
      if "Suc t < ?K \<and> chunk_range ?cs ?n (Suc t) \<noteq> {}" for t
      unfolding uC using contig that by blast
    show "snd (chunk_bounds ?cs ?n t) = fst (chunk_bounds ?cs ?n (Suc t))"
      if "Suc t < ?K \<and> chunk_range ?cs ?n (Suc t) \<noteq> {}" for t
      using contig that by blast
    show "chunk_range ?cs ?n t = {}"
      if "t < ?K" "?n \<le> fst (chunk_bounds ?cs ?n t)" for t using skip that by blast
    show "scan_chunk input ?cs ?n t st = Inr st"
      if "t < ?K" "?n \<le> fst (chunk_bounds ?cs ?n t)" for t st using skip that by blast
    show "add_offset ?cs ?n prefixSums t result = Inr result"
      if "t < ?K" "?n \<le> fst (chunk_bounds ?cs ?n t)" for t prefixSums and result :: "'a list"
      using skip that by blast
  qed
qed

theorem chunks_partition_the_input_witness:
  "length (replicate 1000 (0::int)) \<le> unat vector_max_size \<and> 1 < sint (3::cint)
   \<and> (\<exists>chunkSize. chunkSize_of 1000 3 = Inr chunkSize \<and> unat chunkSize = 334
        \<and> chunk_range chunkSize 1000 0 = {0..<334}
        \<and> chunk_range chunkSize 1000 1 = {334..<668}
        \<and> chunk_range chunkSize 1000 2 = {668..<1000}
        \<and> chunk_range chunkSize 1000 0 \<inter> chunk_range chunkSize 1000 2 = {}
        \<and> chunk_range chunkSize 1000 0 \<union> chunk_range chunkSize 1000 1
              \<union> chunk_range chunkSize 1000 2 = {..<1000})"
proof -
  have h1: "length (replicate 1000 (0::int)) \<le> unat vector_max_size"
    by (simp add: vector_max_size_def)
  have h2: "1 < sint (3::cint)" by simp
  from chunks_partition_the_input [OF h1 h2]
  obtain cs where cs: "chunkSize_of 1000 (3::cint) = Inr cs"
    "int (unat cs) = \<lceil>real 1000 / real_of_int 3\<rceil>"
    "\<And>t. t < 3 \<Longrightarrow> chunk_range cs 1000 t = {t * unat cs ..< min (t * unat cs + unat cs) 1000}"
    "\<And>t u. t < 3 \<Longrightarrow> u < 3 \<Longrightarrow> t \<noteq> u \<Longrightarrow> chunk_range cs 1000 t \<inter> chunk_range cs 1000 u = {}"
    "(\<Union>t<3. chunk_range cs 1000 t) = {..<1000}"
    by auto
  have "\<lceil>real 1000 / real_of_int 3\<rceil> = (334::int)" by simp
  with cs(2) have "int (unat cs) = 334" by (simp only:)
  then have u: "unat cs = 334" by linarith
  have "{..<3::nat} = {0, 1, 2}" by auto
  with cs(5) have "chunk_range cs 1000 0 \<union> chunk_range cs 1000 1 \<union> chunk_range cs 1000 2 = {..<1000}"
    by (simp add: Un_commute Un_left_commute)
  moreover have "chunk_range cs 1000 0 = {0..<334}" "chunk_range cs 1000 1 = {334..<668}"
    "chunk_range cs 1000 2 = {668..<1000}"
    using cs(3) [of 0] cs(3) [of 1] cs(3) [of 2] u by simp_all
  moreover have "chunk_range cs 1000 0 \<inter> chunk_range cs 1000 2 = {}"
    using cs(4) [of 0 2] by simp
  ultimately show ?thesis using cs(1) u h1 h2 by blast
qed

subsection \<open>C6\<close>

text \<open>
  Claim C6. In the parallel path, whatever the order in which the threads run, the third
  phase has no thread for chunk 0 and leaves every element at an index below
  \<open>min chunkSize n\<close> as the first phase wrote it; to every element of a later chunk \<open>t\<close>
  it adds \<open>prefixSums[t - 1]\<close>.
\<close>

theorem phase3_leaves_chunk_0:
  fixes input :: "'a::comm_monoid_add list"
  assumes "length input \<le> unat vector_max_size" and "1 < sint T"
    and "set order1 = set (phase1_threads T)" and "distinct order1"
    and "set order3 = set (phase3_threads T)" and "distinct order3"
  shows "\<exists>chunkSize result1 lastValues prefixSums result3.
           chunkSize_of (of_nat (length input)) T = Inr chunkSize
         \<and> phase1 order1 input chunkSize (of_nat (length input)) T
               (replicate (length input) 0) = Inr (result1, lastValues)
         \<and> phase2 lastValues T = Inr prefixSums
         \<and> phase3 order3 chunkSize (of_nat (length input)) prefixSums result1 = Inr result3
         \<and> 0 \<notin> set order3
         \<and> (\<forall>i<min (unat chunkSize) (length input). result3 ! i = result1 ! i)
         \<and> (\<forall>i<length input. unat chunkSize \<le> i \<longrightarrow>
               result3 ! i = result1 ! i + prefixSums ! (i div unat chunkSize - 1))"
proof -
  let ?N = "length input" and ?K = "nat (sint T)"
  define C where "C = ceil_div ?N ?K"
  let ?cs = "of_nat C :: size_t" and ?n = "of_nat ?N :: size_t"
  note N = assms(1)
  have K: "0 < ?K" "?K < 2 ^ 31" using assms(2) sint_bound32 [of T] by simp_all
  have uC: "unat ?cs = C" unfolding C_def using N K by (rule unat_chunk_size)
  have o1: "set order1 = {..<?K}" and o3: "set order3 = {1..<?K}"
    using assms(3,5) by (simp_all add: spawn_orders)
  from parallel_phases_trace [OF N assms(2) refl C_def o1 assms(4) o3 assms(6)]
  obtain r1 lv ps r3 where tr:
    "chunkSize_of ?n T = Inr ?cs"
    "phase1 order1 input ?cs ?n T (replicate ?N 0) = Inr (r1, lv)"
    "phase2 lv T = Inr ps"
    "phase3 order3 ?cs ?n ps r1 = Inr r3"
    "\<And>i. i < ?N \<Longrightarrow> r3 ! i = (if 0 < i div C then r1 ! i + ps ! (i div C - 1) else r1 ! i)"
    by blast
  have low: "r3 ! i = r1 ! i" if "i < min C ?N" for i
  proof -
    from that have "i div C = 0" "i < ?N" by simp_all
    then show ?thesis using tr(5) [of i] by simp
  qed
  have high: "r3 ! i = r1 ! i + ps ! (i div C - 1)" if i: "i < ?N" and c: "C \<le> i" for i
  proof -
    from i have "0 < ?N" by (cases input) simp_all
    then have "0 < C" unfolding C_def using K(1) by (intro ceil_div_pos)
    with c have "0 < i div C" by (simp add: div_greater_zero_iff)
    then show ?thesis using tr(5) [OF i] by simp
  qed
  show ?thesis
  proof (rule exI [of _ ?cs], rule exI [of _ r1], rule exI [of _ lv], rule exI [of _ ps],
      rule exI [of _ r3], intro conjI allI impI)
    show "chunkSize_of ?n T = Inr ?cs" by (rule tr(1))
    show "phase1 order1 input ?cs ?n T (replicate ?N 0) = Inr (r1, lv)" by (rule tr(2))
    show "phase2 lv T = Inr ps" by (rule tr(3))
    show "phase3 order3 ?cs ?n ps r1 = Inr r3" by (rule tr(4))
    show "0 \<notin> set order3" unfolding o3 by simp
    show "r3 ! i = r1 ! i" if "i < min (unat ?cs) ?N" for i
      using that unfolding uC by (rule low)
    show "r3 ! i = r1 ! i + ps ! (i div unat ?cs - 1)" if "i < ?N" "unat ?cs \<le> i" for i
      using that unfolding uC by (rule high)
  qed
qed

theorem phase3_leaves_chunk_0_witness:
  "length [1, 2, 3, 4, 5, 6, 7::int] \<le> unat vector_max_size \<and> 1 < sint (3::cint)
   \<and> set [2, 0, 1] = set (phase1_threads 3) \<and> distinct [2, 0, 1::nat]
   \<and> set [2, 1] = set (phase3_threads 3) \<and> distinct [2, 1::nat]
   \<and> (\<exists>chunkSize result1 lastValues prefixSums result3.
          chunkSize_of 7 3 = Inr chunkSize
        \<and> phase1 [2, 0, 1] [1, 2, 3, 4, 5, 6, 7::int] chunkSize 7 3 (replicate 7 0)
              = Inr (result1, lastValues)
        \<and> phase2 lastValues 3 = Inr prefixSums
        \<and> phase3 [2, 1] chunkSize 7 prefixSums result1 = Inr result3
        \<and> unat chunkSize = 3
        \<and> result3 ! 0 = result1 ! 0 \<and> result3 ! 1 = result1 ! 1 \<and> result3 ! 2 = result1 ! 2
        \<and> result3 ! 3 = result1 ! 3 + prefixSums ! 0
        \<and> result3 ! 6 = result1 ! 6 + prefixSums ! 1)"
proof -
  have h1: "length [1, 2, 3, 4, 5, 6, 7::int] \<le> unat vector_max_size"
    by (simp add: vector_max_size_def)
  have h2: "1 < sint (3::cint)" by simp
  have h3: "set [2, 0, 1] = set (phase1_threads 3)"
    by (auto simp: phase1_threads_def)
  have h4: "distinct [2, 0, 1::nat]" by simp
  have h5: "set [2, 1] = set (phase3_threads 3)"
    by (auto simp: phase3_threads_def)
  have h6: "distinct [2, 1::nat]" by simp
  have len: "length [1, 2, 3, 4, 5, 6, 7::int] = 7" by simp
  from phase3_leaves_chunk_0 [OF h1 h2 h3 h4 h5 h6, unfolded len of_nat_numeral]
  obtain cs r1 lv ps r3 where w:
    "chunkSize_of 7 (3::cint) = Inr cs"
    "phase1 [2, 0, 1] [1, 2, 3, 4, 5, 6, 7::int] cs 7 3 (replicate 7 0) = Inr (r1, lv)"
    "phase2 lv 3 = Inr ps"
    "phase3 [2, 1] cs 7 ps r1 = Inr r3"
    "\<And>i. i < min (unat cs) 7 \<Longrightarrow> r3 ! i = r1 ! i"
    "\<And>i. i < 7 \<Longrightarrow> unat cs \<le> i \<Longrightarrow> r3 ! i = r1 ! i + ps ! (i div unat cs - 1)"
    by blast
  from w(1) have "cs = 3" by (simp add: chunkSize_of_def)
  then have u: "unat cs = 3" by simp
  have "r3 ! 0 = r1 ! 0" "r3 ! 1 = r1 ! 1" "r3 ! 2 = r1 ! 2"
    using w(5) [of 0] w(5) [of 1] w(5) [of 2] u by simp_all
  moreover have "r3 ! 3 = r1 ! 3 + ps ! 0" "r3 ! 6 = r1 ! 6 + ps ! 1"
    using w(6) [of 3] w(6) [of 6] u by simp_all
  ultimately show ?thesis using w(1,2,3,4) u h1 h2 h3 h4 h5 h6 by blast
qed

subsection \<open>C7\<close>

text \<open>
  Claim C7, as amended. The elements of the vectors that the program scans are 32-bit
  \<^verbatim>\<open>int\<close>s, whose sums wrap around. For every thread count \<open>T \<ge> 1\<close> the output of
  \<^verbatim>\<open>parallelInclusiveScan\<close> has \<open>output[0] = input[0]\<close> and, in 32-bit arithmetic,
  \<open>output[i+1] - output[i] = input[i+1]\<close> for every valid \<open>i\<close>. When no prefix sum of the
  input leaves the range of \<^verbatim>\<open>int\<close>, the signed values of the output are these prefix
  sums, the equation holds for the signed values as integers, and, when no element of the
  input is negative, the output is non-decreasing.
\<close>

theorem scan_differences_and_monotonicity_int32:
  fixes input :: "cint list"
  assumes "length input \<le> unat vector_max_size" and "1 \<le>s T"
  shows "\<exists>output. parallelInclusiveScan input T = Inr output
           \<and> length output = length input
           \<and> (input \<noteq> [] \<longrightarrow> output ! 0 = input ! 0)
           \<and> (\<forall>i. Suc i < length input \<longrightarrow> output ! Suc i - output ! i = input ! Suc i)
           \<and> ((\<forall>k\<le>length input.
                   - (2 ^ 31) \<le> sum_list (map sint (take k input))
                   \<and> sum_list (map sint (take k input)) < 2 ^ 31) \<longrightarrow>
                (\<forall>i<length input. sint (output ! i) = sum_list (map sint (take (Suc i) input)))
              \<and> (\<forall>i. Suc i < length input \<longrightarrow>
                    sint (output ! Suc i) - sint (output ! i) = sint (input ! Suc i))
              \<and> ((\<forall>x\<in>set input. 0 \<le> sint x) \<longrightarrow>
                    (\<forall>i. Suc i < length input \<longrightarrow> output ! i \<le>s output ! Suc i)))"
proof -
  let ?out = "inclusive_scan input"
  have run: "parallelInclusiveScan input T = Inr ?out" using assms(1) by (rule scan_correct)
  have d: "?out ! Suc i - ?out ! i = input ! Suc i" if "Suc i < length input" for i
    using that by (rule inclusive_scan_Suc_diff)
  have signed:
    "(\<forall>i<length input. sint (?out ! i) = sum_list (map sint (take (Suc i) input)))
     \<and> (\<forall>i. Suc i < length input \<longrightarrow>
           sint (?out ! Suc i) - sint (?out ! i) = sint (input ! Suc i))
     \<and> ((\<forall>x\<in>set input. 0 \<le> sint x) \<longrightarrow>
           (\<forall>i. Suc i < length input \<longrightarrow> ?out ! i \<le>s ?out ! Suc i))"
    if fit: "\<forall>k\<le>length input.
               - (2 ^ 31) \<le> sum_list (map sint (take k input))
               \<and> sum_list (map sint (take k input)) < 2 ^ 31"
  proof -
    from fit have fit': "- (2 ^ 31) \<le> sum_list (map sint (take k input))
                         \<and> sum_list (map sint (take k input)) < 2 ^ 31"
      if "k \<le> length input" for k using that by blast
    from scan_of_int32_without_overflow [OF assms(1) fit', of T]
    obtain ys where ys: "parallelInclusiveScan input T = Inr ys"
      "\<forall>i<length input. sint (ys ! i) = sum_list (map sint (take (Suc i) input))"
      "\<forall>i. Suc i < length input \<longrightarrow> sint (ys ! Suc i) - sint (ys ! i) = sint (input ! Suc i)"
      "(\<forall>x\<in>set input. 0 \<le> sint x)
         \<longrightarrow> (\<forall>i. Suc i < length input \<longrightarrow> sint (ys ! i) \<le> sint (ys ! Suc i))"
      by blast
    from ys(1) run have "ys = ?out" by simp
    with ys(2,3,4) show ?thesis unfolding word_sle_eq by blast
  qed
  show ?thesis
  proof (intro exI conjI)
    show "parallelInclusiveScan input T = Inr ?out" by (rule run)
    show "length ?out = length input" by (rule length_inclusive_scan)
    show "input \<noteq> [] \<longrightarrow> ?out ! 0 = input ! 0" by (simp add: inclusive_scan_0)
    show "\<forall>i. Suc i < length input \<longrightarrow> ?out ! Suc i - ?out ! i = input ! Suc i"
      using d by blast
    show "(\<forall>k\<le>length input.
              - (2 ^ 31) \<le> sum_list (map sint (take k input))
              \<and> sum_list (map sint (take k input)) < 2 ^ 31) \<longrightarrow>
          (\<forall>i<length input. sint (?out ! i) = sum_list (map sint (take (Suc i) input)))
          \<and> (\<forall>i. Suc i < length input \<longrightarrow>
                sint (?out ! Suc i) - sint (?out ! i) = sint (input ! Suc i))
          \<and> ((\<forall>x\<in>set input. 0 \<le> sint x) \<longrightarrow>
                (\<forall>i. Suc i < length input \<longrightarrow> ?out ! i \<le>s ?out ! Suc i))"
      using signed by blast
  qed
qed

theorem scan_differences_and_monotonicity_int32_witness:
  "length [3, 0, 4, 1::cint] \<le> unat vector_max_size \<and> (1::cint) \<le>s 8
   \<and> (\<exists>output. parallelInclusiveScan [3, 0, 4, 1::cint] 8 = Inr output
         \<and> length output = 4 \<and> output ! 0 = 3
         \<and> output ! 1 - output ! 0 = 0 \<and> output ! 2 - output ! 1 = 4
         \<and> output ! 3 - output ! 2 = 1
         \<and> sint (output ! 1) - sint (output ! 0) = 0
         \<and> sint (output ! 2) - sint (output ! 1) = 4
         \<and> sint (output ! 3) - sint (output ! 2) = 1
         \<and> sint (output ! 3) = 8
         \<and> output ! 0 \<le>s output ! 1 \<and> output ! 1 \<le>s output ! 2 \<and> output ! 2 \<le>s output ! 3)"
proof -
  let ?in = "[3, 0, 4, 1::cint]"
  have h1: "length ?in \<le> unat vector_max_size"
    by (simp add: vector_max_size_def)
  have h2: "(1::cint) \<le>s 8" by (simp add: word_sle_eq)
  have h3: "\<forall>x\<in>set ?in. 0 \<le> sint x" by simp
  have h4: "\<forall>k\<le>length ?in.
              - (2 ^ 31) \<le> sum_list (map sint (take k ?in))
              \<and> sum_list (map sint (take k ?in)) < 2 ^ 31"
  proof (intro allI impI)
    fix k assume "k \<le> length ?in"
    then have "k = 0 \<or> k = 1 \<or> k = 2 \<or> k = 3 \<or> k = 4" by (simp, linarith)
    then show "- (2 ^ 31) \<le> sum_list (map sint (take k ?in))
               \<and> sum_list (map sint (take k ?in)) < 2 ^ 31"
      by (auto simp: numeral_2_eq_2 numeral_3_eq_3 eval_nat_numeral)
  qed
  from scan_differences_and_monotonicity_int32 [OF h1 h2] h3 h4
  obtain ys where out: "parallelInclusiveScan ?in 8 = Inr ys"
    "length ys = length ?in" "ys ! 0 = ?in ! 0"
    "\<And>i. Suc i < length ?in \<Longrightarrow> ys ! Suc i - ys ! i = ?in ! Suc i"
    "\<And>i. i < length ?in \<Longrightarrow> sint (ys ! i) = sum_list (map sint (take (Suc i) ?in))"
    "\<And>i. Suc i < length ?in \<Longrightarrow> sint (ys ! Suc i) - sint (ys ! i) = sint (?in ! Suc i)"
    "\<And>i. Suc i < length ?in \<Longrightarrow> ys ! i \<le>s ys ! Suc i"
    by blast
  have "ys ! 1 - ys ! 0 = 0" "ys ! 2 - ys ! 1 = 4" "ys ! 3 - ys ! 2 = 1"
    using out(4) [of 0] out(4) [of 1] out(4) [of 2]
    by (simp_all add: numeral_2_eq_2 numeral_3_eq_3)
  moreover have "sint (ys ! 1) - sint (ys ! 0) = 0" "sint (ys ! 2) - sint (ys ! 1) = 4"
    "sint (ys ! 3) - sint (ys ! 2) = 1"
    using out(6) [of 0] out(6) [of 1] out(6) [of 2]
    by (simp_all add: numeral_2_eq_2 numeral_3_eq_3)
  moreover have "sint (ys ! 3) = 8"
    using out(5) [of 3] by (simp add: numeral_3_eq_3)
  moreover have "ys ! 0 \<le>s ys ! 1" "ys ! 1 \<le>s ys ! 2" "ys ! 2 \<le>s ys ! 3"
    using out(7) [of 0] out(7) [of 1] out(7) [of 2]
    by (simp_all add: numeral_2_eq_2 numeral_3_eq_3)
  ultimately show ?thesis using out(1,2,3) h1 h2 by simp
qed

text \<open>
  Claim C7 as it is stated does not hold: the input \<open>[2147483647, 1]\<close> has no negative
  element, and its output \<open>[2147483647, -2147483648]\<close> decreases, because the second
  prefix sum overflows.
\<close>

theorem scan_monotonicity_overflow_counterexample:
  "0 \<le> sint (2147483647 :: cint) \<and> 0 \<le> sint (1 :: cint)
   \<and> parallelInclusiveScan [2147483647, 1 :: cint] 4 = Inr [2147483647, 2147483648]
   \<and> sint (2147483647 :: cint) = 2147483647
   \<and> sint (2147483648 :: cint) = - 2147483648
   \<and> \<not> (2147483647 :: cint) \<le>s 2147483648"
proof -
  have "length [2147483647, 1 :: cint] \<le> unat vector_max_size"
    by (simp add: vector_max_size_def)
  from scan_correct [OF this, of 4]
  have "parallelInclusiveScan [2147483647, 1 :: cint] 4 = Inr [2147483647, 2147483648]"
    by simp
  then show ?thesis by (simp add: word_sle_eq)
qed

subsection \<open>C8\<close>

text \<open>
  Claim C8, as amended. When the hardware concurrency \<open>h\<close> is at least 1 (and below
  \<open>2\<^sup>2\<^sup>9\<close>, so that \<^verbatim>\<open>(int)hwThreads * 4\<close> does not overflow) and every measured time is
  a finite \<^verbatim>\<open>double\<close>, \<^verbatim>\<open>experiment3\<close> sets \<open>maxK = min 32 (4 h)\<close>, records exactly
  \<open>maxK\<close> pairs \<open>(K, time)\<close>, one for each \<open>K = 1, \<dots>, maxK\<close> in increasing order, and
  the \<open>bestK\<close> and \<open>bestTime\<close> of the closing summary are a recorded pair whose time is the
  least recorded time and whose \<open>K\<close> is the least among the pairs with that time.
\<close>

theorem sweep_records_every_K_and_keeps_first_minimum:
  assumes "length data \<le> unat vector_max_size"
    and "\<And>c. now (Suc c) - now c \<le> DBL_MAX"
    and "1 \<le> unat hwThreads" and "unat hwThreads < 2 ^ 29"
  shows "\<exists>baseTime st.
           experiment3 hwThreads now data
             = Inr (min 32 (4 * int (unat hwThreads)), baseTime, st)
         \<and> results st
             = map (\<lambda>k. (k, now (nat (2 * k) + 1) - now (nat (2 * k))))
                 [1 .. min 32 (4 * int (unat hwThreads))]
         \<and> int (length (results st)) = min 32 (4 * int (unat hwThreads))
         \<and> (bestK st, bestTime st) \<in> set (results st)
         \<and> (\<forall>(k, t)\<in>set (results st).
               bestTime st \<le> t \<and> (t = bestTime st \<longrightarrow> bestK st \<le> k))"
proof -
  let ?maxK = "min 32 (4 * int (unat hwThreads))"
  let ?st0 = "\<lparr>results = [], bestK = 1, bestTime = DBL_MAX, clock = 2\<rparr>"
  have mk: "maxK_of hwThreads = Inr ?maxK" using assms(4) by (rule maxK_of_eq)
  have "1 \<le> int (unat hwThreads)" using assms(3) by linarith
  then have pos: "1 \<le> ?maxK" by linarith
  then have "1 \<le> ?maxK + 1" by simp
  from sweep_loop_result [where now = now, OF assms(1,2) sweep_inv_initial this]
  obtain st where st: "sweep_loop now data ?maxK 1 ?st0 = Inr st"
    "sweep_inv now (?maxK + 1) st" by blast
  have e: "experiment3 hwThreads now data = Inr (?maxK, now 1 - now 0, st)"
    unfolding experiment3_def
    using mk st(1) baseline_measured(1) [OF assms(1)] baseline_measured(2) [OF assms(1), of now]
    by (simp add: Let_def)
  have k1: "1 < ?maxK + 1" using pos by linarith
  note inv = st(2) [unfolded sweep_inv_def]
  from inv have "results st = map (\<lambda>k. (k, sweep_time now k)) [1..?maxK + 1 - 1]" by blast
  then have res: "results st = map (\<lambda>k. (k, sweep_time now k)) [1..?maxK]"
    by (simp only: add_diff_cancel_right')
  from inv k1 have best: "(bestK st, bestTime st) \<in> set (results st)"
    "\<forall>(k, t)\<in>set (results st). bestTime st \<le> t \<and> (t = bestTime st \<longrightarrow> bestK st \<le> k)"
    by blast+
  have res': "results st
                = map (\<lambda>k. (k, now (nat (2 * k) + 1) - now (nat (2 * k)))) [1..?maxK]"
    using res by (simp only: sweep_time_def)
  have "length [1..?maxK] = nat (?maxK - 1 + 1)" by (rule length_upto)
  then have "int (length (results st)) = ?maxK" unfolding res' using pos by (simp only: length_map)
  with e res' best show ?thesis by blast
qed

theorem sweep_records_every_K_and_keeps_first_minimum_witness:
  "length [4, 9, 2 :: cint] \<le> unat vector_max_size
   \<and> 1 \<le> unat (1 :: cuint) \<and> unat (1 :: cuint) < 2 ^ 29
   \<and> (\<exists>baseTime st. experiment3 1 real [4, 9, 2] = Inr (4, baseTime, st)
         \<and> results st = [(1, 1), (2, 1), (3, 1), (4, 1)]
         \<and> bestK st = 1 \<and> bestTime st = 1)"
proof -
  have h1: "length [4, 9, 2 :: cint] \<le> unat vector_max_size"
    by (simp add: vector_max_size_def)
  have h2: "real (Suc c) - real c \<le> DBL_MAX" for c by (simp add: DBL_MAX_def)
  have h3: "1 \<le> unat (1 :: cuint)" and h4: "unat (1 :: cuint) < 2 ^ 29" by simp_all
  have up: "[1..4::int] = [1, 2, 3, 4]" by (simp add: upto.simps)
  have mk: "min 32 (4 * int (unat (1::cuint))) = 4" by simp
  note th = sweep_records_every_K_and_keeps_first_minimum
    [of "[4, 9, 2]" real 1, OF h1 h2 h3 h4, unfolded mk up]
  from th obtain baseTime st where w:
    "experiment3 1 real [4, 9, 2 :: cint] = Inr (4, baseTime, st)"
    "results st = map (\<lambda>k. (k, real (nat (2 * k) + 1) - real (nat (2 * k)))) [1, 2, 3, 4]"
    "(bestK st, bestTime st) \<in> set (results st)"
    "\<forall>(k, t)\<in>set (results st). bestTime st \<le> t \<and> (t = bestTime st \<longrightarrow> bestK st \<le> k)"
    by blast
  from w(2) have r: "results st = [(1, 1), (2, 1), (3, 1), (4, 1)]" by simp
  from w(3) have bt: "bestTime st = 1" unfolding r by auto
  from w(4) have "bestTime st \<le> 1 \<and> (1 = bestTime st \<longrightarrow> bestK st \<le> 1)"
    unfolding r by simp
  with bt have "bestK st \<le> 1" by simp
  moreover from w(3) have "1 \<le> bestK st" unfolding r by auto
  ultimately have "bestK st = 1" by simp
  with w(1) r bt h1 h3 h4 show ?thesis by blast
qed

text \<open>
  Claim C8 as it is stated does not hold when the hardware concurrency is 0: nothing is
  recorded, and the pair \<open>(1, DBL_MAX)\<close> of the closing summary is not a recorded
  measurement. (The clock \<open>real\<close> reads \<open>c\<close> milliseconds at its \<open>c\<close>-th reading.)
\<close>

theorem experiment3_concurrency_0_counterexample:
  "experiment3 0 real ([] :: cint list)
     = Inr (0, 1, \<lparr>results = [], bestK = 1, bestTime = DBL_MAX, clock = 2\<rparr>)
   \<and> (1, DBL_MAX) \<notin> set (results \<lparr>results = [], bestK = 1, bestTime = DBL_MAX, clock = 2\<rparr>)"
proof -
  have e: "length ([] :: cint list) \<le> unat vector_max_size" by simp
  from baseline_measured(1) [OF e] baseline_measured(2) [OF e, of real]
  show ?thesis
    by (simp add: experiment3_def maxK_of_def empty_sweep Let_def)
qed

subsection \<open>C9\<close>

text \<open>
  Claim C9. Whatever the state of the random engine, and for every requested size,
  \<^verbatim>\<open>generateRandomData\<close> returns a vector of exactly that size whose elements all lie in
  \<open>[1, 100]\<close>, provided that a \<^verbatim>\<open>uniform_int_distribution<int>(a, b)\<close> with \<open>a \<le> b\<close>
  draws a number in \<open>[a, b]\<close>, as the C++ standard requires. For at most 10,000,000
  elements, and so for the sizes that \<^verbatim>\<open>main\<close> tests, every prefix sum is at most
  \<open>10\<^sup>9 < 2\<^sup>3\<^sup>1\<close>, and the 32-bit sums of the scan are these numbers: no addition
  overflows.
\<close>

theorem generateRandomData_range_and_sums:
  assumes "\<And>a b g. a \<le>s b \<Longrightarrow> a \<le>s fst (dis a b g) \<and> fst (dis a b g) \<le>s b"
  shows "\<exists>data. generateRandomData dis gen size' = Inr data
           \<and> length data = unat size'
           \<and> (\<forall>x\<in>set data. 1 \<le> sint x \<and> sint x \<le> 100)
           \<and> (unat size' \<le> 10000000 \<longrightarrow>
                (\<forall>i<length data.
                   sint (inclusive_scan data ! i) = sum_list (map sint (take (Suc i) data))
                 \<and> sum_list (map sint (take (Suc i) data)) \<le> 1000000000
                 \<and> (1000000000::int) < 2 ^ 31))
           \<and> (\<forall>s\<in>set sizes. unat s \<le> 10000000)"
proof -
  have "(1::cint) \<le>s 100" by (simp add: word_sle_eq)
  from assms(1) [OF this]
  have draw: "1 \<le> sint (fst (dis 1 100 g)) \<and> sint (fst (dis 1 100 g)) \<le> 100" for g
    by (simp add: word_sle_eq)
  from generateRandomData_effect [of dis gen size', OF draw]
  obtain data where d: "generateRandomData dis gen size' = Inr data"
    "length data = unat size'" "\<forall>x\<in>set data. 1 \<le> sint x \<and> sint x \<le> 100"
    by blast
  have sums: "sint (inclusive_scan data ! i) = sum_list (map sint (take (Suc i) data))
              \<and> sum_list (map sint (take (Suc i) data)) \<le> 1000000000
              \<and> (1000000000::int) < 2 ^ 31"
    if "unat size' \<le> 10000000" "i < length data" for i
    using prefix_sums_fit [OF d(3) _ that(2)] that(1) d(2) by simp
  have sz: "\<forall>s\<in>set sizes. unat s \<le> 10000000"
    by (simp add: sizes_def)
  from d sums sz show ?thesis by blast
qed

theorem generateRandomData_range_and_sums_witness:
  "(\<exists>data. generateRandomData (\<lambda>a b g. (a, g)) () 3 = Inr data \<and> length data = 3
         \<and> 1 \<le> sint (data ! 2) \<and> sint (data ! 2) \<le> 100
         \<and> sint (inclusive_scan data ! 2)
             = sum_list (map sint (take 3 data))
         \<and> sum_list (map sint (take 3 data)) \<le> 1000000000)"
proof -
  have h1: "a \<le>s fst ((\<lambda>a b g. (a, g)) a b g) \<and> fst ((\<lambda>a b g. (a, g)) a b g) \<le>s b"
    if "a \<le>s b" for a b :: cint and g :: unit
    using that by simp
  from generateRandomData_range_and_sums [of "\<lambda>a b g. (a, g)" "()" 3, OF h1]
  obtain data where d: "generateRandomData (\<lambda>a b g. (a, g)) () 3 = Inr data"
    "length data = 3" "\<And>x. x \<in> set data \<Longrightarrow> 1 \<le> sint x \<and> sint x \<le> 100"
    "\<And>i. i < length data \<Longrightarrow>
       sint (inclusive_scan data ! i) = sum_list (map sint (take (Suc i) data))
       \<and> sum_list (map sint (take (Suc i) data)) \<le> 1000000000"
    by auto
  from d(2) have "data ! 2 \<in> set data" by simp
  from d(3) [OF this] d(4) [of 2] d(1,2) show ?thesis
    by (auto simp: numeral_3_eq_3)
qed

subsection \<open>C10\<close>

text \<open>
  Claim C10. When the reported hardware concurrency is 0, \<open>maxK = min 32 (0 * 4) = 0\<close>,
  the loop over \<open>K = 1, \<dots>, maxK\<close> returns at once whatever its state, no pair is
  recorded, and the closing summary still reports \<open>bestK = 1\<close> and
  \<open>bestTime = DBL_MAX\<close>, which belong to no measurement.
\<close>

theorem no_measurement_when_concurrency_is_0:
  assumes "length data \<le> unat vector_max_size"
  shows "maxK_of 0 = Inr 0
       \<and> (\<forall>st. sweep_loop now data 0 1 st = Inr st)
       \<and> experiment3 0 now data
           = Inr (0, now 1 - now 0, \<lparr>results = [], bestK = 1, bestTime = DBL_MAX, clock = 2\<rparr>)"
proof -
  have m: "maxK_of 0 = Inr 0" by (simp add: maxK_of_def)
  moreover have l: "sweep_loop now data 0 1 st = Inr st" for st
    by (rule empty_sweep) simp
  ultimately show ?thesis
    using baseline_measured(1) [OF assms] baseline_measured(2) [OF assms, of now]
    by (simp add: experiment3_def Let_def)
qed

theorem no_measurement_when_concurrency_is_0_witness:
  "length [4, 9, 2 :: cint] \<le> unat vector_max_size
   \<and> experiment3 0 real [4, 9, 2]
       = Inr (0, 1, \<lparr>results = [], bestK = 1, bestTime = DBL_MAX, clock = 2\<rparr>)"
proof -
  have h: "length [4, 9, 2 :: cint] \<le> unat vector_max_size"
    by (simp add: vector_max_size_def)
  from no_measurement_when_concurrency_is_0 [OF h, of real] h show ?thesis by simp
qed

end
